theory Spec2Isabelle
  imports Main "HOL-Library.Word"
begin

unbundle bit_operations_syntax

section \<open>The camera device of \<^verbatim>\<open>modules/camera/Camera.cpp\<close>\<close>

text \<open>
  The development embeds the member functions of \<^verbatim>\<open>default_camera_hal::Camera\<close>.
  The device's mutex serialises the calls; the model is of one call at a time.
  Objects that the code reaches through pointers live in explicit stores:
  \<^item> Stream objects in a heap, a list of cells indexed by address; \<^verbatim>\<open>new Stream\<close> appends a
    cell, \<^verbatim>\<open>delete\<close> empties it, so that an address is never handed out twice;
  \<^item> the framework's \<^verbatim>\<open>camera3_stream_t\<close> descriptors in a second list, indexed by address.
  Every function whose C++ original dereferences a pointer returns an \<open>option\<close>: \<open>None\<close>
  stands for undefined behaviour of the C++ program (a null, dangling or out-of-range
  pointer is dereferenced, an array element is read before it is written, a signed loop
  counter overflows).
\<close>

subsection \<open>Constants of the platform headers\<close>

text \<open>
  Modelled from the spec: \<^verbatim>\<open>errno.h\<close> and \<^verbatim>\<open>hardware/gralloc.h\<close> are not among the sources.
  The spec names the status codes \<^verbatim>\<open>-EINVAL\<close> and \<^verbatim>\<open>-EBUSY\<close> and the four usage capabilities;
  the numbers are those of the platform headers.
\<close>

definition EINVAL :: int where "EINVAL = 22"
definition EBUSY :: int where "EBUSY = 16"

definition GRALLOC_USAGE_SW_READ_OFTEN :: "32 word" where
  "GRALLOC_USAGE_SW_READ_OFTEN = 0x00000003"
definition GRALLOC_USAGE_SW_WRITE_OFTEN :: "32 word" where
  "GRALLOC_USAGE_SW_WRITE_OFTEN = 0x00000030"
definition GRALLOC_USAGE_HW_CAMERA_WRITE :: "32 word" where
  "GRALLOC_USAGE_HW_CAMERA_WRITE = 0x00020000"
definition GRALLOC_USAGE_HW_CAMERA_READ :: "32 word" where
  "GRALLOC_USAGE_HW_CAMERA_READ = 0x00040000"

subsection \<open>Descriptors, streams, the device\<close>

type_synonym stream_ptr = nat
type_synonym desc_ptr = nat
type_synonym handle = nat

text \<open>
  Modelled from the spec: \<^verbatim>\<open>hardware/camera3.h\<close> is not among the sources. A descriptor
  carries a type classification (input, output, bidirectional), its immutable geometry
  and format, the usage and max-buffers values, and the opaque \<^verbatim>\<open>priv\<close> tag that holds the
  backing Stream handle. A stream configuration is a count and an array of descriptor
  pointers.
\<close>

datatype camera3_stream_type =
  CAMERA3_STREAM_OUTPUT | CAMERA3_STREAM_INPUT | CAMERA3_STREAM_BIDIRECTIONAL

record camera3_stream =
  stream_type :: camera3_stream_type
  width :: "32 word"
  height :: "32 word"
  format :: int
  usage :: "32 word"
  max_buffers :: "32 word"
  priv :: "stream_ptr option"

record camera3_stream_configuration =
  num_streams :: "32 word"
  streams :: "desc_ptr list"

text \<open>
  Modelled from the spec: \<^verbatim>\<open>Stream.h\<close> and \<^verbatim>\<open>Stream.cpp\<close> are not among the sources. A Stream
  records its owning device id, the descriptor it is bound to, the type classification
  and the other immutable descriptor fields, a reuse marker, the assigned usage flags
  and the maximum in-flight buffer count.
\<close>

record Stream =
  mReuse :: bool
  mDeviceId :: int
  mStream :: desc_ptr
  mType :: camera3_stream_type
  mWidth :: "32 word"
  mHeight :: "32 word"
  mFormat :: int
  mUsage :: "32 word"
  mMaxBuffers :: "32 word"

text \<open>An element of a \<^verbatim>\<open>Stream*[]\<close>: not yet written, or a pointer (\<open>None\<close> is \<^verbatim>\<open>NULL\<close>).\<close>

datatype slot = Uninit | Ptr "stream_ptr option"

record Camera =
  mId :: int
  mBusy :: bool
  mModule :: "handle option"
  mCallbackOps :: "handle option"
  mStreams :: "slot list option"
  mNumStreams :: int

type_synonym heap = "Stream option list"

record world =
  cam :: Camera
  heap :: heap
  descs :: "camera3_stream list"

subsection \<open>Pointer reads\<close>

text \<open>\<^verbatim>\<open>streams[i]\<close>: undefined for a null array, past its end, and on an unwritten element.\<close>

definition slot_at :: "slot list option \<Rightarrow> nat \<Rightarrow> stream_ptr option option" where
  "slot_at arr i =
     (case arr of
        None \<Rightarrow> None
      | Some xs \<Rightarrow>
          if i < length xs then (case xs ! i of Uninit \<Rightarrow> None | Ptr p \<Rightarrow> Some p) else None)"

text \<open>\<^verbatim>\<open>p->\<close>: undefined for a null pointer and for one that addresses no live Stream.\<close>

definition deref :: "heap \<Rightarrow> stream_ptr option \<Rightarrow> Stream option" where
  "deref h p = (case p of None \<Rightarrow> None | Some a \<Rightarrow> if a < length h then h ! a else None)"

subsection \<open>The Stream collaborator\<close>

text \<open>
  \<^verbatim>\<open>Stream.h\<close> and \<^verbatim>\<open>Stream.cpp\<close> are not among the sources; the member functions that
  \<^verbatim>\<open>Camera.cpp\<close> calls follow the specification's description of the Stream interface.
\<close>

text \<open>
  Modelled from the spec: \<^verbatim>\<open>Stream::isInputType\<close> is missing. A stream is input capable when
  its type classification is input or bidirectional.
\<close>

definition isInputType :: "Stream \<Rightarrow> bool" where
  "isInputType s = (mType s = CAMERA3_STREAM_INPUT \<or> mType s = CAMERA3_STREAM_BIDIRECTIONAL)"

text \<open>
  Modelled from the spec: \<^verbatim>\<open>Stream::isOutputType\<close> is missing. A stream is output capable
  when its type classification is output or bidirectional.
\<close>

definition isOutputType :: "Stream \<Rightarrow> bool" where
  "isOutputType s = (mType s = CAMERA3_STREAM_OUTPUT \<or> mType s = CAMERA3_STREAM_BIDIRECTIONAL)"

text \<open>
  Modelled from the spec: \<^verbatim>\<open>Stream::isValidReuseStream\<close> is missing. The reuse check
  compares the owning device id, the type classification and the other immutable
  descriptor fields (format, width, height).
\<close>

definition isValidReuseStream :: "Stream \<Rightarrow> int \<Rightarrow> camera3_stream \<Rightarrow> bool" where
  "isValidReuseStream s id' astream =
     (id' = mDeviceId s \<and> stream_type astream = mType s \<and> format astream = mFormat s
      \<and> width astream = mWidth s \<and> height astream = mHeight s)"

text \<open>
  Modelled from the spec: the constructor \<^verbatim>\<open>Stream::Stream\<close> is missing. A new Stream is
  bound to the device and to the descriptor and records the descriptor's immutable
  fields; its reuse marker is clear (a Stream created in a transaction that aborts is
  freed), and nothing is assigned yet.
\<close>

definition newStream :: "int \<Rightarrow> desc_ptr \<Rightarrow> camera3_stream \<Rightarrow> Stream" where
  "newStream id' d astream =
     \<lparr>mReuse = False, mDeviceId = id', mStream = d, mType = stream_type astream,
      mWidth = width astream, mHeight = height astream, mFormat = format astream,
      mUsage = 0, mMaxBuffers = 0\<rparr>"

text \<open>
  Modelled from the spec: \<^verbatim>\<open>Stream::setUsage\<close> is missing. The assignment stores the usage
  flags in the Stream and in the descriptor the Stream is bound to.
\<close>

definition setUsage :: "stream_ptr \<Rightarrow> 32 word \<Rightarrow> world \<Rightarrow> world option" where
  "setUsage a u w =
     (case deref (heap w) (Some a) of
        None \<Rightarrow> None
      | Some s \<Rightarrow>
          if mStream s < length (descs w)
          then Some (w\<lparr>heap := (heap w)[a := Some (s\<lparr>mUsage := u\<rparr>)],
                       descs := (descs w)[mStream s := (descs w ! mStream s)\<lparr>usage := u\<rparr>]\<rparr>)
          else None)"

text \<open>
  Modelled from the spec: \<^verbatim>\<open>Stream::setMaxBuffers\<close> is missing. The assignment stores the
  maximum buffer count in the Stream and in the descriptor the Stream is bound to: a
  positive max-buffers value is what a later configuration finds left over there.
\<close>

definition setMaxBuffers :: "stream_ptr \<Rightarrow> 32 word \<Rightarrow> world \<Rightarrow> world option" where
  "setMaxBuffers a m w =
     (case deref (heap w) (Some a) of
        None \<Rightarrow> None
      | Some s \<Rightarrow>
          if mStream s < length (descs w)
          then Some (w\<lparr>heap := (heap w)[a := Some (s\<lparr>mMaxBuffers := m\<rparr>)],
                       descs := (descs w)[mStream s := (descs w ! mStream s)\<lparr>max_buffers := m\<rparr>]\<rparr>)
          else None)"

subsection \<open>Device lifecycle\<close>

definition Camera :: "int \<Rightarrow> Camera" where
  "Camera id' =
     \<lparr>mId = id', mBusy = False, mModule = None, mCallbackOps = None, mStreams = None,
      mNumStreams = 0\<rparr>"

text \<open>
  \<^verbatim>\<open>open\<close> returns the status, the new state and what it stored through the out parameter
  \<^verbatim>\<open>device\<close> (\<open>None\<close> when nothing was stored; the handle of \<^verbatim>\<open>&mDevice.common\<close> is taken to
  be the device id).
\<close>

definition "open" :: "world \<Rightarrow> handle option \<Rightarrow> int \<times> world \<times> int option" where
  "open w module =
     (if mBusy (cam w) then (- EBUSY, w, None)
      else (0, w\<lparr>cam := (cam w)\<lparr>mBusy := True, mModule := module\<rparr>\<rparr>, Some (mId (cam w))))"

definition close :: "world \<Rightarrow> int \<times> world" where
  "close w =
     (if \<not> mBusy (cam w) then (- EINVAL, w)
      else (0, w\<lparr>cam := (cam w)\<lparr>mBusy := False\<rparr>\<rparr>))"

definition initialize :: "world \<Rightarrow> handle option \<Rightarrow> int \<times> world" where
  "initialize w callback_ops = (0, w\<lparr>cam := (cam w)\<lparr>mCallbackOps := callback_ops\<rparr>\<rparr>)"

subsection \<open>Stream configuration\<close>

text \<open>
  \<^verbatim>\<open>destroyStreams\<close>: a null array is left alone; otherwise every element that is not null
  and whose Stream is not marked reused is deleted. The loop reads \<^verbatim>\<open>count\<close> elements.
\<close>

fun destroyLoop :: "slot list option \<Rightarrow> nat \<Rightarrow> nat \<Rightarrow> heap \<Rightarrow> heap option" where
  "destroyLoop arr i 0 h = Some h"
| "destroyLoop arr i (Suc k) h =
     (case slot_at arr i of
        None \<Rightarrow> None
      | Some None \<Rightarrow> destroyLoop arr (Suc i) k h
      | Some (Some a) \<Rightarrow>
          (case deref h (Some a) of
             None \<Rightarrow> None
           | Some s \<Rightarrow> destroyLoop arr (Suc i) k (if \<not> mReuse s then h[a := None] else h)))"

definition destroyStreams :: "slot list option \<Rightarrow> int \<Rightarrow> heap \<Rightarrow> heap option" where
  "destroyStreams streams' count h =
     (if streams' = None then Some h else destroyLoop streams' 0 (nat count) h)"

text \<open>
  \<^verbatim>\<open>reuseStream\<close>: the descriptor's tag is taken as a Stream pointer and dereferenced; a
  failed check returns \<^verbatim>\<open>NULL\<close> and changes nothing, a passed one marks the Stream reused.
\<close>

definition reuseStream ::
  "int \<Rightarrow> camera3_stream \<Rightarrow> heap \<Rightarrow> (stream_ptr option \<times> heap) option" where
  "reuseStream id' astream h =
     (case priv astream of
        None \<Rightarrow> None
      | Some a \<Rightarrow>
          (case deref h (Some a) of
             None \<Rightarrow> None
           | Some s \<Rightarrow>
               if \<not> isValidReuseStream s id' astream then Some (None, h)
               else Some (Some a, h[a := Some (s\<lparr>mReuse := True\<rparr>)])))"

text \<open>
  \<^verbatim>\<open>isValidStreamSet\<close>: the tallies are C++ \<^verbatim>\<open>int\<close>s; they never exceed \<^verbatim>\<open>count\<close>, which is
  an \<^verbatim>\<open>int\<close> itself, so they cannot overflow.
\<close>

fun countLoop ::
  "slot list option \<Rightarrow> nat \<Rightarrow> nat \<Rightarrow> heap \<Rightarrow> int \<Rightarrow> int \<Rightarrow> (int \<times> int) option" where
  "countLoop arr i 0 h inputs outputs = Some (inputs, outputs)"
| "countLoop arr i (Suc k) h inputs outputs =
     (case slot_at arr i of
        None \<Rightarrow> None
      | Some p \<Rightarrow>
          (case deref h p of
             None \<Rightarrow> None
           | Some s \<Rightarrow>
               countLoop arr (Suc i) k h
                 (if isInputType s then inputs + 1 else inputs)
                 (if isOutputType s then outputs + 1 else outputs)))"

definition isValidStreamSet :: "slot list option \<Rightarrow> int \<Rightarrow> world \<Rightarrow> (bool \<times> world) option" where
  "isValidStreamSet streams' count w =
     (if streams' = None then Some (False, w)
      else if count = 0 then Some (False, w)
      else
        (case countLoop streams' 0 (nat count) (heap w) 0 0 of
           None \<Rightarrow> None
         | Some (inputs, outputs) \<Rightarrow>
             if outputs < 1 then Some (False, w)
             else if inputs > 1 then Some (False, w)
             else Some (True, w)))"

text \<open>\<^verbatim>\<open>setupStreams\<close>: the same dummy values for every stream.\<close>

definition stream_usage :: "Stream \<Rightarrow> 32 word" where
  "stream_usage s =
     (let usage0 = 0;
          usage1 = (if isOutputType s
                    then usage0 OR (GRALLOC_USAGE_SW_WRITE_OFTEN OR GRALLOC_USAGE_HW_CAMERA_WRITE)
                    else usage0);
          usage2 = (if isInputType s
                    then usage1 OR (GRALLOC_USAGE_SW_READ_OFTEN OR GRALLOC_USAGE_HW_CAMERA_READ)
                    else usage1)
      in usage2)"

fun setupLoop :: "slot list option \<Rightarrow> nat \<Rightarrow> nat \<Rightarrow> world \<Rightarrow> world option" where
  "setupLoop arr i 0 w = Some w"
| "setupLoop arr i (Suc k) w =
     (case slot_at arr i of
        None \<Rightarrow> None
      | Some None \<Rightarrow> None
      | Some (Some a) \<Rightarrow>
          (case deref (heap w) (Some a) of
             None \<Rightarrow> None
           | Some s \<Rightarrow>
               (case setUsage a (stream_usage s) w of
                  None \<Rightarrow> None
                | Some w1 \<Rightarrow>
                    (case setMaxBuffers a 1 w1 of
                       None \<Rightarrow> None
                     | Some w2 \<Rightarrow> setupLoop arr (Suc i) k w2))))"

definition setupStreams :: "slot list option \<Rightarrow> int \<Rightarrow> world \<Rightarrow> world option" where
  "setupStreams streams' count w = setupLoop streams' 0 (nat count) w"

text \<open>
  The first loop of \<^verbatim>\<open>configureStreams\<close> clears the reuse marker of every committed stream.
\<close>

fun markUnused :: "slot list option \<Rightarrow> nat \<Rightarrow> nat \<Rightarrow> heap \<Rightarrow> heap option" where
  "markUnused arr i 0 h = Some h"
| "markUnused arr i (Suc k) h =
     (case slot_at arr i of
        None \<Rightarrow> None
      | Some None \<Rightarrow> None
      | Some (Some a) \<Rightarrow>
          (case deref h (Some a) of
             None \<Rightarrow> None
           | Some s \<Rightarrow> markUnused arr (Suc i) k (h[a := Some (s\<lparr>mReuse := False\<rparr>)])))"

text \<open>
  The second loop fills the new array with reused and new streams and tags each
  descriptor. It runs for \<open>k\<close> more descriptors from index \<open>i\<close>; the result says whether it
  ran to its end (\<open>True\<close>) or left for \<^verbatim>\<open>err_out\<close> (\<open>False\<close>). The counter \<^verbatim>\<open>i\<close> is an
  \<^verbatim>\<open>int\<close>: incrementing it at \<open>2\<^sup>3\<^sup>1 - 1\<close> is undefined.
\<close>

fun fillStreams ::
  "desc_ptr list \<Rightarrow> nat \<Rightarrow> nat \<Rightarrow> world \<Rightarrow> slot list \<Rightarrow> (bool \<times> world \<times> slot list) option" where
  "fillStreams ds i 0 w newStreams = Some (True, w, newStreams)"
| "fillStreams ds i (Suc k) w newStreams =
     (if \<not> i < length ds then None
      else
        let d = ds ! i in
        if \<not> d < length (descs w) then None
        else
          let astream = descs w ! d in
          (case (if max_buffers astream > 0 then reuseStream (mId (cam w)) astream (heap w)
                 else Some (Some (length (heap w)),
                            heap w @ [Some (newStream (mId (cam w)) d astream)])) of
             None \<Rightarrow> None
           | Some (p, h1) \<Rightarrow>
               let newStreams1 = newStreams[i := Ptr p] in
               (case p of
                  None \<Rightarrow> Some (False, w\<lparr>heap := h1\<rparr>, newStreams1)
                | Some a \<Rightarrow>
                    let w1 = w\<lparr>heap := h1, descs := (descs w)[d := astream\<lparr>priv := Some a\<rparr>]\<rparr> in
                    if int i = 2147483647 then None
                    else fillStreams ds (Suc i) k w1 newStreams1)))"

text \<open>
  \<^verbatim>\<open>configureStreams\<close>. A null configuration is \<open>None\<close> as argument. The count is a
  \<^verbatim>\<open>uint32_t\<close>; it is read as an \<^verbatim>\<open>int\<close> where it is passed on or stored.
\<close>

definition err_out :: "slot list \<Rightarrow> 32 word \<Rightarrow> world \<Rightarrow> (int \<times> world) option" where
  "err_out newStreams n w =
     (case destroyStreams (Some newStreams) (sint n) (heap w) of
        None \<Rightarrow> None
      | Some h \<Rightarrow> Some (- EINVAL, w\<lparr>heap := h\<rparr>))"

definition configureStreams ::
  "world \<Rightarrow> camera3_stream_configuration option \<Rightarrow> (int \<times> world) option" where
  "configureStreams w stream_config =
     (case stream_config of
        None \<Rightarrow> Some (- EINVAL, w)
      | Some sc \<Rightarrow>
          if num_streams sc = 0 then Some (- EINVAL, w)
          else
            let newStreams = replicate (unat (num_streams sc)) Uninit in
            (case markUnused (mStreams (cam w)) 0 (nat (mNumStreams (cam w))) (heap w) of
               None \<Rightarrow> None
             | Some h0 \<Rightarrow>
                 (case fillStreams (streams sc) 0 (unat (num_streams sc)) (w\<lparr>heap := h0\<rparr>)
                         newStreams of
                    None \<Rightarrow> None
                  | Some (filled, w1, newStreams1) \<Rightarrow>
                      if \<not> filled then err_out newStreams1 (num_streams sc) w1
                      else
                        (case isValidStreamSet (Some newStreams1) (sint (num_streams sc)) w1 of
                           None \<Rightarrow> None
                         | Some (valid, w2) \<Rightarrow>
                             if \<not> valid then err_out newStreams1 (num_streams sc) w2
                             else
                               (case setupStreams (Some newStreams1) (sint (num_streams sc)) w2 of
                                  None \<Rightarrow> None
                                | Some w3 \<Rightarrow>
                                    (case destroyStreams (mStreams (cam w3)) (mNumStreams (cam w3))
                                            (heap w3) of
                                       None \<Rightarrow> None
                                     | Some h4 \<Rightarrow>
                                         Some (0, w3\<lparr>heap := h4,
                                                   cam := (cam w3)\<lparr>mStreams := Some newStreams1,
                                                     mNumStreams := sint (num_streams sc)\<rparr>\<rparr>)))))))"

section \<open>Vocabulary of the properties\<close>

text \<open>
  The Stream a slot addresses, the two tallies of the validator's rule as the
  specification words them (a bidirectional stream counts toward both), and the slot
  arrays all of whose elements address live streams.
\<close>

definition stream_of :: "heap \<Rightarrow> slot \<Rightarrow> Stream option" where
  "stream_of h x = (case x of Uninit \<Rightarrow> None | Ptr p \<Rightarrow> deref h p)"

definition includes_input :: "camera3_stream_type \<Rightarrow> bool" where
  "includes_input t = (t = CAMERA3_STREAM_INPUT \<or> t = CAMERA3_STREAM_BIDIRECTIONAL)"

definition includes_output :: "camera3_stream_type \<Rightarrow> bool" where
  "includes_output t = (t = CAMERA3_STREAM_OUTPUT \<or> t = CAMERA3_STREAM_BIDIRECTIONAL)"

definition input_count :: "heap \<Rightarrow> slot list \<Rightarrow> nat" where
  "input_count h xs =
     length (filter (\<lambda>x. case stream_of h x of None \<Rightarrow> False
                          | Some s \<Rightarrow> includes_input (mType s)) xs)"

definition output_count :: "heap \<Rightarrow> slot list \<Rightarrow> nat" where
  "output_count h xs =
     length (filter (\<lambda>x. case stream_of h x of None \<Rightarrow> False
                          | Some s \<Rightarrow> includes_output (mType s)) xs)"

definition live_slots :: "heap \<Rightarrow> slot list \<Rightarrow> bool" where
  "live_slots h xs = list_all (\<lambda>x. stream_of h x \<noteq> None) xs"

text \<open>
  The usage the specification gives a stream of a type, the stream as the configurator
  leaves it, arrays whose streams are bound to existing descriptors, and what one or more
  configurator steps may change between two states.
\<close>

definition usage_for :: "camera3_stream_type \<Rightarrow> 32 word" where
  "usage_for t =
     (if includes_output t then GRALLOC_USAGE_SW_WRITE_OFTEN OR GRALLOC_USAGE_HW_CAMERA_WRITE else 0)
     OR (if includes_input t then GRALLOC_USAGE_SW_READ_OFTEN OR GRALLOC_USAGE_HW_CAMERA_READ else 0)"

definition configured :: "Stream \<Rightarrow> Stream" where
  "configured s = s\<lparr>mUsage := usage_for (mType s), mMaxBuffers := 1\<rparr>"

definition bound_slots :: "world \<Rightarrow> slot list \<Rightarrow> bool" where
  "bound_slots w xs =
     list_all (\<lambda>x. case stream_of (heap w) x of None \<Rightarrow> False
                    | Some s \<Rightarrow> mStream s < length (descs w)) xs"

definition setup_frame :: "world \<Rightarrow> world \<Rightarrow> bool" where
  "setup_frame w w' =
     (cam w' = cam w \<and> length (heap w') = length (heap w) \<and> length (descs w') = length (descs w)
      \<and> (\<forall>a<length (heap w). heap w' ! a = heap w ! a
            \<or> (\<exists>s. heap w ! a = Some s \<and> heap w' ! a = Some (configured s)))
      \<and> (\<forall>d<length (descs w). \<exists>u m. descs w' ! d = (descs w ! d)\<lparr>usage := u, max_buffers := m\<rparr>
            \<and> (m = max_buffers (descs w ! d) \<or> m = 1)))"

text \<open>
  A descriptor signals reuse by a positive max-buffers value. A descriptor is acceptable
  to the fill loop when it exists and, if it signals reuse, its tag addresses a live
  Stream below the bound \<open>L0\<close> that passes the reuse check and is bound to an existing
  descriptor; it is a mismatch when its tag addresses a live Stream that fails the check.
\<close>

definition signals_reuse :: "camera3_stream \<Rightarrow> bool" where
  "signals_reuse c = (0 < max_buffers c)"

definition good :: "nat \<Rightarrow> world \<Rightarrow> desc_ptr \<Rightarrow> bool" where
  "good L0 w d =
     (d < length (descs w) \<and>
      (signals_reuse (descs w ! d) \<longrightarrow>
         (\<exists>a s. priv (descs w ! d) = Some a \<and> a < L0 \<and> deref (heap w) (Some a) = Some s
            \<and> isValidReuseStream s (mId (cam w)) (descs w ! d)
            \<and> mStream s < length (descs w))))"

definition mismatch :: "world \<Rightarrow> desc_ptr \<Rightarrow> bool" where
  "mismatch w d =
     (d < length (descs w) \<and> signals_reuse (descs w ! d) \<and>
      (case deref (heap w) (priv (descs w ! d)) of
         None \<Rightarrow> False
       | Some s \<Rightarrow> \<not> isValidReuseStream s (mId (cam w)) (descs w ! d)))"

text \<open>What the fill loop may change between two states, and what it leaves in a slot.\<close>

definition fill_frame :: "nat \<Rightarrow> world \<Rightarrow> world \<Rightarrow> bool" where
  "fill_frame L0 w w' =
     (cam w' = cam w \<and> length (heap w) \<le> length (heap w')
      \<and> length (descs w') = length (descs w)
      \<and> (\<forall>a<length (heap w). heap w' ! a = heap w ! a
            \<or> (a < L0 \<and> (\<exists>s. heap w ! a = Some s \<and> heap w' ! a = Some (s\<lparr>mReuse := True\<rparr>))))
      \<and> (\<forall>d<length (descs w). descs w' ! d = descs w ! d
            \<or> (\<not> signals_reuse (descs w ! d)
                \<and> (\<exists>a. length (heap w) \<le> a \<and> a < length (heap w')
                      \<and> descs w' ! d = (descs w ! d)\<lparr>priv := Some a\<rparr>))))"

definition cand :: "nat \<Rightarrow> world \<Rightarrow> world \<Rightarrow> desc_ptr \<Rightarrow> slot \<Rightarrow> bool" where
  "cand L0 w w' d x =
     (\<exists>a s. x = Ptr (Some a) \<and> deref (heap w') (Some a) = Some s
        \<and> isValidReuseStream s (mId (cam w)) (descs w ! d)
        \<and> mStream s < length (descs w)
        \<and> (if signals_reuse (descs w ! d)
            then priv (descs w ! d) = Some a \<and> a < L0 \<and> mReuse s
            else length (heap w) \<le> a \<and> \<not> mReuse s \<and> mStream s = d
                 \<and> (\<exists>a'. priv (descs w' ! d) = Some a' \<and> length (heap w) \<le> a'
                        \<and> a' < length (heap w'))))"

text \<open>
  The state and array after the fill loop has run over the descriptors \<open>i \<le> j < i + k\<close>:
  the frame, a candidate in each slot of the range, every other slot as before, every
  Stream allocated meanwhile in a slot of the range, and the new streams at increasing
  addresses.
\<close>

definition filled ::
  "nat \<Rightarrow> desc_ptr list \<Rightarrow> nat \<Rightarrow> nat \<Rightarrow> world \<Rightarrow> slot list \<Rightarrow> world \<Rightarrow> slot list \<Rightarrow> bool" where
  "filled L0 ds i k w arr w' arr' =
     (fill_frame L0 w w' \<and> length arr' = length arr
      \<and> (\<forall>j<length arr. j < i \<or> i + k \<le> j \<longrightarrow> arr' ! j = arr ! j)
      \<and> (\<forall>j. i \<le> j \<and> j < i + k \<longrightarrow> cand L0 w w' (ds ! j) (arr' ! j))
      \<and> (\<forall>b. length (heap w) \<le> b \<and> b < length (heap w')
             \<longrightarrow> (\<exists>j. i \<le> j \<and> j < i + k \<and> arr' ! j = Ptr (Some b)))
      \<and> (\<forall>j j' a a'. i \<le> j \<and> j < j' \<and> j' < i + k
             \<and> \<not> signals_reuse (descs w ! (ds ! j)) \<and> \<not> signals_reuse (descs w ! (ds ! j'))
             \<and> arr' ! j = Ptr (Some a) \<and> arr' ! j' = Ptr (Some a') \<longrightarrow> a < a'))"

text \<open>
  The committed stream set of a device is the array \<^verbatim>\<open>mStreams\<close> (empty when null); the
  device is well formed when \<^verbatim>\<open>mNumStreams\<close> is its length and every element addresses a
  live Stream. A descriptor is acceptable to \<^verbatim>\<open>configureStreams\<close> when it exists and, if it
  signals reuse, its tag addresses a live Stream that passes the reuse check and is bound
  to an existing descriptor.
\<close>

definition committed :: "world \<Rightarrow> slot list" where
  "committed w = (case mStreams (cam w) of None \<Rightarrow> [] | Some xs \<Rightarrow> xs)"

definition committed_ok :: "world \<Rightarrow> bool" where
  "committed_ok w =
     (mNumStreams (cam w) = int (length (committed w)) \<and> live_slots (heap w) (committed w))"

definition desc_ok :: "world \<Rightarrow> desc_ptr \<Rightarrow> bool" where
  "desc_ok w d =
     (d < length (descs w) \<and>
      (signals_reuse (descs w ! d) \<longrightarrow>
         (case deref (heap w) (priv (descs w ! d)) of
            None \<Rightarrow> False
          | Some s \<Rightarrow> isValidReuseStream s (mId (cam w)) (descs w ! d)
                      \<and> mStream s < length (descs w))))"

text \<open>Two heaps that differ at most in the reuse markers of the first one's streams.\<close>

definition unflag :: "Stream \<Rightarrow> Stream" where
  "unflag s = s\<lparr>mReuse := False\<rparr>"

definition flag_eq :: "heap \<Rightarrow> heap \<Rightarrow> bool" where
  "flag_eq h h' =
     (length h \<le> length h' \<and>
      (\<forall>a<length h. map_option unflag (h' ! a) = map_option unflag (h ! a)))"

text \<open>
  The tallies of the validator's rule over the descriptors of a configuration; the slots
  that the reuse descriptors of a configuration carry over; the committed slots that a
  configuration does not carry over; and a call on a well-formed device with a
  configuration whose count is the length of its array and fits a C++ \<^verbatim>\<open>int\<close>.
\<close>

definition desc_inputs :: "world \<Rightarrow> desc_ptr list \<Rightarrow> nat" where
  "desc_inputs w ds = length (filter (\<lambda>d. includes_input (stream_type (descs w ! d))) ds)"

definition desc_outputs :: "world \<Rightarrow> desc_ptr list \<Rightarrow> nat" where
  "desc_outputs w ds = length (filter (\<lambda>d. includes_output (stream_type (descs w ! d))) ds)"

definition reused_slots :: "world \<Rightarrow> desc_ptr list \<Rightarrow> slot list" where
  "reused_slots w ds =
     map (\<lambda>d. Ptr (priv (descs w ! d))) (filter (\<lambda>d. signals_reuse (descs w ! d)) ds)"

definition superseded :: "world \<Rightarrow> desc_ptr list \<Rightarrow> slot list" where
  "superseded w ds = filter (\<lambda>x. x \<notin> set (reused_slots w ds)) (committed w)"

definition call_ok :: "world \<Rightarrow> camera3_stream_configuration \<Rightarrow> bool" where
  "call_ok w sc =
     (committed_ok w \<and> unat (num_streams sc) = length (streams sc)
      \<and> int (length (streams sc)) < 2147483648)"

text \<open>The heap after \<^verbatim>\<open>destroyStreams\<close> has run over the slots \<open>i \<le> j < i + k\<close> of an array.\<close>

definition destroyed :: "slot list \<Rightarrow> nat \<Rightarrow> nat \<Rightarrow> heap \<Rightarrow> heap \<Rightarrow> bool" where
  "destroyed xs i k h h' =
     (length h' = length h
      \<and> (\<forall>a<length h. h' ! a = h ! a
            \<or> (h' ! a = None \<and> (\<exists>j s. i \<le> j \<and> j < i + k \<and> xs ! j = Ptr (Some a)
                                     \<and> h ! a = Some s \<and> \<not> mReuse s)))
      \<and> (\<forall>j a s. i \<le> j \<and> j < i + k \<and> xs ! j = Ptr (Some a)
            \<and> deref h (Some a) = Some s \<and> \<not> mReuse s \<longrightarrow> h' ! a = None))"

text \<open>
  The state after an aborted transaction that processed the first \<open>m\<close> descriptors: the
  device record is the old one; the streams that existed keep everything but the reuse
  marker; every Stream allocated by the transaction is freed; a descriptor is as before
  or, if it did not signal reuse, tagged with the address of such a freed Stream; the
  stream of a processed reuse descriptor is marked reused and its descriptor is as
  before; a processed descriptor that did not signal reuse carries a dangling tag.
\<close>

definition rolled_back :: "world \<Rightarrow> desc_ptr list \<Rightarrow> nat \<Rightarrow> world \<Rightarrow> bool" where
  "rolled_back w ds m w' =
     (cam w' = cam w \<and> flag_eq (heap w) (heap w')
      \<and> (\<forall>a. length (heap w) \<le> a \<and> a < length (heap w') \<longrightarrow> heap w' ! a = None)
      \<and> length (descs w') = length (descs w)
      \<and> (\<forall>d<length (descs w). descs w' ! d = descs w ! d
            \<or> (\<not> signals_reuse (descs w ! d)
                \<and> (\<exists>a. length (heap w) \<le> a \<and> a < length (heap w')
                      \<and> descs w' ! d = (descs w ! d)\<lparr>priv := Some a\<rparr>)))
      \<and> (\<forall>j<m. if signals_reuse (descs w ! (ds ! j))
                 then descs w' ! (ds ! j) = descs w ! (ds ! j)
                      \<and> (\<exists>s. deref (heap w) (priv (descs w ! (ds ! j))) = Some s
                             \<and> deref (heap w') (priv (descs w ! (ds ! j)))
                                 = Some (s\<lparr>mReuse := True\<rparr>))
                 else (\<exists>a. priv (descs w' ! (ds ! j)) = Some a \<and> length (heap w) \<le> a
                         \<and> a < length (heap w') \<and> heap w' ! a = None)))"

text \<open>
  A descriptor that signals reuse of a live Stream whose recorded owning device id or
  type classification differs from the device's id or the descriptor's type.
\<close>

definition reuse_differs :: "world \<Rightarrow> desc_ptr \<Rightarrow> bool" where
  "reuse_differs w d =
     (d < length (descs w) \<and> signals_reuse (descs w ! d) \<and>
      (case deref (heap w) (priv (descs w ! d)) of
         None \<Rightarrow> False
       | Some s \<Rightarrow> mDeviceId s \<noteq> mId (cam w) \<or> mType s \<noteq> stream_type (descs w ! d)))"

text \<open>
  The state after a committed transaction: the device record with the new array and
  count; in each slot a live, configured Stream that passes the reuse check against its
  descriptor, the one the descriptor carried if it signalled reuse, a new one bound to the
  descriptor otherwise; the new streams at increasing addresses; the descriptors changed
  only in usage, max-buffers and tag, each descriptor of the configuration now signalling
  reuse; every Stream allocated by the transaction in a slot of the array.
\<close>

definition committed_to :: "world \<Rightarrow> desc_ptr list \<Rightarrow> world \<Rightarrow> slot list \<Rightarrow> bool" where
  "committed_to w ds w' arr =
     (cam w' = (cam w)\<lparr>mStreams := Some arr, mNumStreams := int (length ds)\<rparr>
      \<and> length arr = length ds
      \<and> (\<forall>j<length ds. \<exists>a s. arr ! j = Ptr (Some a) \<and> deref (heap w') (Some a) = Some s
             \<and> isValidReuseStream s (mId (cam w)) (descs w ! (ds ! j))
             \<and> mStream s < length (descs w)
             \<and> mUsage s = usage_for (mType s) \<and> mMaxBuffers s = 1
             \<and> (if signals_reuse (descs w ! (ds ! j))
                 then priv (descs w ! (ds ! j)) = Some a \<and> a < length (heap w)
                 else length (heap w) \<le> a \<and> mStream s = ds ! j \<and> \<not> mReuse s))
      \<and> (\<forall>j j' a a'. j < j' \<and> j' < length ds
             \<and> \<not> signals_reuse (descs w ! (ds ! j)) \<and> \<not> signals_reuse (descs w ! (ds ! j'))
             \<and> arr ! j = Ptr (Some a) \<and> arr ! j' = Ptr (Some a') \<longrightarrow> a < a')
      \<and> length (descs w') = length (descs w)
      \<and> (\<forall>d<length (descs w). \<exists>u m p. descs w' ! d
                                          = (descs w ! d)\<lparr>usage := u, max_buffers := m, priv := p\<rparr>)
      \<and> (\<forall>j<length ds. signals_reuse (descs w' ! (ds ! j)))
      \<and> length (heap w) \<le> length (heap w')
      \<and> (\<forall>b. length (heap w) \<le> b \<and> b < length (heap w')
             \<longrightarrow> (\<exists>j<length ds. arr ! j = Ptr (Some b))))"

section \<open>Example states\<close>

text \<open>A closed device with no stream, and a stream array over one output and one input stream.\<close>

definition closed_device :: world where
  "closed_device = \<lparr>cam = Camera 0, heap = [], descs = []\<rparr>"

definition out_stream :: Stream where
  "out_stream =
     \<lparr>mReuse = False, mDeviceId = 0, mStream = 0, mType = CAMERA3_STREAM_OUTPUT,
      mWidth = 640, mHeight = 480, mFormat = 1, mUsage = 0, mMaxBuffers = 0\<rparr>"

definition in_stream :: Stream where
  "in_stream = out_stream\<lparr>mStream := 1, mType := CAMERA3_STREAM_INPUT\<rparr>"

definition out_desc :: camera3_stream where
  "out_desc =
     \<lparr>stream_type = CAMERA3_STREAM_OUTPUT, width = 640, height = 480, format = 1, usage = 0,
      max_buffers = 0, priv = None\<rparr>"

definition in_desc :: camera3_stream where
  "in_desc = out_desc\<lparr>stream_type := CAMERA3_STREAM_INPUT\<rparr>"

definition two_streams :: world where
  "two_streams =
     \<lparr>cam = Camera 0, heap = [Some out_stream, Some in_stream], descs = [out_desc, in_desc]\<rparr>"

text \<open>A closed device with two descriptors (output and input) and no stream yet.\<close>

definition fresh_device :: world where
  "fresh_device = \<lparr>cam = Camera 0, heap = [], descs = [out_desc, in_desc]\<rparr>"

definition inputs_only :: camera3_stream_configuration where
  "inputs_only = \<lparr>num_streams = 1, streams = [1]\<rparr>"

text \<open>
  A device whose committed set is one output stream, marked reused by its last
  configuration. Descriptor 0 asks for a new input stream; descriptor 1 carries the
  committed stream's handle but asks for a bidirectional stream.
\<close>

definition unused_stream :: Stream where
  "unused_stream =
     \<lparr>mReuse = True, mDeviceId = 0, mStream = 1, mType = CAMERA3_STREAM_OUTPUT,
      mWidth = 640, mHeight = 480, mFormat = 1,
      mUsage = GRALLOC_USAGE_SW_WRITE_OFTEN OR GRALLOC_USAGE_HW_CAMERA_WRITE, mMaxBuffers = 1\<rparr>"

definition mismatch_world :: world where
  "mismatch_world =
     \<lparr>cam = (Camera 0)\<lparr>mStreams := Some [Ptr (Some 0)], mNumStreams := 1\<rparr>,
      heap = [Some unused_stream],
      descs = [in_desc,
               out_desc\<lparr>stream_type := CAMERA3_STREAM_BIDIRECTIONAL, max_buffers := 1,
                         priv := Some 0\<rparr>]\<rparr>"

definition mismatch_config :: camera3_stream_configuration where
  "mismatch_config = \<lparr>num_streams = 2, streams = [0, 1]\<rparr>"

definition mismatch_result :: world where
  "mismatch_result =
     mismatch_world\<lparr>heap := [Some (unused_stream\<lparr>mReuse := False\<rparr>), None],
                     descs := [in_desc\<lparr>priv := Some 1\<rparr>,
                               out_desc\<lparr>stream_type := CAMERA3_STREAM_BIDIRECTIONAL,
                                         max_buffers := 1, priv := Some 0\<rparr>]\<rparr>"

definition early_mismatch_config :: camera3_stream_configuration where
  "early_mismatch_config = \<lparr>num_streams = 2, streams = [1, 0]\<rparr>"

text \<open>
  A configuration over the two descriptors of the fresh device, and the device after it
  has been committed.
\<close>

definition both_config :: camera3_stream_configuration where
  "both_config = \<lparr>num_streams = 2, streams = [0, 1]\<rparr>"

text \<open>
  A closed device with two output descriptors; configurations that list the first
  descriptor once, the first descriptor twice, and the second descriptor alone; and the
  device after the first two of these, and after the second one called twice.
\<close>

definition two_outputs :: world where
  "two_outputs = \<lparr>cam = Camera 0, heap = [], descs = [out_desc, out_desc]\<rparr>"

definition first_only :: camera3_stream_configuration where
  "first_only = \<lparr>num_streams = 1, streams = [0]\<rparr>"

definition first_twice :: camera3_stream_configuration where
  "first_twice = \<lparr>num_streams = 2, streams = [0, 0]\<rparr>"

definition second_only :: camera3_stream_configuration where
  "second_only = \<lparr>num_streams = 1, streams = [1]\<rparr>"

definition out_configured :: Stream where
  "out_configured =
     out_stream\<lparr>mUsage := GRALLOC_USAGE_SW_WRITE_OFTEN OR GRALLOC_USAGE_HW_CAMERA_WRITE,
                 mMaxBuffers := 1\<rparr>"

definition out_assigned :: "stream_ptr \<Rightarrow> camera3_stream" where
  "out_assigned a =
     out_desc\<lparr>usage := GRALLOC_USAGE_SW_WRITE_OFTEN OR GRALLOC_USAGE_HW_CAMERA_WRITE,
               max_buffers := 1, priv := Some a\<rparr>"

definition committed_once :: world where
  "committed_once =
     \<lparr>cam = (Camera 0)\<lparr>mStreams := Some [Ptr (Some 0)], mNumStreams := 1\<rparr>,
      heap = [Some out_configured], descs = [out_assigned 0, out_desc]\<rparr>"

definition committed_same :: world where
  "committed_same =
     \<lparr>cam = (Camera 0)\<lparr>mStreams := Some [Ptr (Some 0), Ptr (Some 0)], mNumStreams := 2\<rparr>,
      heap = [Some (out_configured\<lparr>mReuse := True\<rparr>)], descs = [out_assigned 0, out_desc]\<rparr>"



text \<open>
  The device of the mismatch example with a third descriptor, for a new output stream,
  and a configuration that lists the mismatching descriptor in the middle; the state after
  the reuse markers have been cleared, and the state in which the fill loop stops.
\<close>

definition abort_world :: world where
  "abort_world = mismatch_world\<lparr>descs := descs mismatch_world @ [out_desc]\<rparr>"

definition middle_config :: camera3_stream_configuration where
  "middle_config = \<lparr>num_streams = 3, streams = [0, 1, 2]\<rparr>"

definition abort_marked :: world where
  "abort_marked = abort_world\<lparr>heap := [Some (unused_stream\<lparr>mReuse := False\<rparr>)]\<rparr>"

definition abort_filled :: world where
  "abort_filled =
     abort_marked\<lparr>heap := heap abort_marked @ [Some (in_stream\<lparr>mStream := 0\<rparr>)],
                   descs := (descs abort_marked)[0 := in_desc\<lparr>priv := Some 1\<rparr>]\<rparr>"

section \<open>Device lifecycle\<close>

text \<open>
  C8. \<^verbatim>\<open>open\<close> on an open device returns \<^verbatim>\<open>-EBUSY\<close> and changes nothing; on a closed device it
  returns 0 and sets the busy flag (and stores the module handle). \<^verbatim>\<open>close\<close> on a closed
  device returns \<^verbatim>\<open>-EINVAL\<close> and changes nothing; on an open device it returns 0 and clears
  the busy flag. Hence the second of two consecutive opens returns \<^verbatim>\<open>-EBUSY\<close> and the
  second of two consecutive closes returns \<^verbatim>\<open>-EINVAL\<close>.
\<close>

theorem open_close_status:
  "(mBusy (cam w) \<longrightarrow> open w m = (- EBUSY, w, None)) \<and>
   (\<not> mBusy (cam w) \<longrightarrow>
      fst (open w m) = 0 \<and> mBusy (cam (fst (snd (open w m)))) \<and>
      mModule (cam (fst (snd (open w m)))) = m) \<and>
   (\<not> mBusy (cam w) \<longrightarrow> close w = (- EINVAL, w)) \<and>
   (mBusy (cam w) \<longrightarrow> fst (close w) = 0 \<and> \<not> mBusy (cam (snd (close w)))) \<and>
   fst (open (fst (snd (open w m))) m') = - EBUSY \<and>
   fst (close (snd (close w))) = - EINVAL"
  by (simp add: open_def close_def)

theorem open_close_status_witness:
  "\<not> mBusy (cam closed_device) \<and>
   fst (open closed_device None) = 0 \<and>
   mBusy (cam (fst (snd (open closed_device None)))) \<and>
   open (fst (snd (open closed_device None))) None
     = (- EBUSY, fst (snd (open closed_device None)), None) \<and>
   fst (close (fst (snd (open closed_device None)))) = 0 \<and>
   close closed_device = (- EINVAL, closed_device)"
  using open_close_status [of closed_device None None]
    open_close_status [of "fst (snd (open closed_device None))" None None]
  by (simp add: closed_device_def Camera_def)

text \<open>
  C10. \<^verbatim>\<open>open\<close>, \<^verbatim>\<open>close\<close> and \<^verbatim>\<open>initialize\<close> leave \<^verbatim>\<open>mStreams\<close>, \<^verbatim>\<open>mNumStreams\<close> and the Stream
  objects as they are; so does a \<^verbatim>\<open>close\<close> followed by an \<^verbatim>\<open>open\<close>: the committed
  configuration survives closing and reopening the device.
\<close>

theorem lifecycle_keeps_streams:
  "mStreams (cam (fst (snd (open w m)))) = mStreams (cam w) \<and>
   mNumStreams (cam (fst (snd (open w m)))) = mNumStreams (cam w) \<and>
   heap (fst (snd (open w m))) = heap w \<and>
   mStreams (cam (snd (close w))) = mStreams (cam w) \<and>
   mNumStreams (cam (snd (close w))) = mNumStreams (cam w) \<and>
   heap (snd (close w)) = heap w \<and>
   mStreams (cam (snd (initialize w cb))) = mStreams (cam w) \<and>
   mNumStreams (cam (snd (initialize w cb))) = mNumStreams (cam w) \<and>
   heap (snd (initialize w cb)) = heap w \<and>
   mStreams (cam (fst (snd (open (snd (close w)) m)))) = mStreams (cam w) \<and>
   mNumStreams (cam (fst (snd (open (snd (close w)) m)))) = mNumStreams (cam w) \<and>
   heap (fst (snd (open (snd (close w)) m))) = heap w"
  by (simp add: open_def close_def initialize_def)

section \<open>Rejected arguments\<close>

text \<open>
  C7. For a null configuration and for one whose stream count is zero,
  \<^verbatim>\<open>configureStreams\<close> returns \<^verbatim>\<open>-EINVAL\<close> and the whole state (device, Stream objects with
  their reuse markers, descriptors) is the one before the call.
\<close>

theorem configureStreams_null_or_empty:
  "configureStreams w None = Some (- EINVAL, w) \<and>
   configureStreams w (Some (sc\<lparr>num_streams := 0\<rparr>)) = Some (- EINVAL, w)"
  by (simp add: configureStreams_def)

section \<open>The aggregate validator\<close>

lemma slot_at_live:
  assumes "live_slots h xs" and "i < length xs"
  shows "\<exists>p s. slot_at (Some xs) i = Some p \<and> deref h p = Some s \<and> stream_of h (xs ! i) = Some s"
proof -
  from assms have "stream_of h (xs ! i) \<noteq> None"
    by (simp add: live_slots_def list_all_length)
  then obtain s where s: "stream_of h (xs ! i) = Some s" by blast
  then obtain p where p: "xs ! i = Ptr p" "deref h p = Some s"
    by (cases "xs ! i") (simp_all add: stream_of_def)
  with assms(2) s show ?thesis by (simp add: slot_at_def)
qed

lemma countLoop_tally:
  assumes "live_slots h xs" and "i + k \<le> length xs"
  shows "countLoop (Some xs) i k h a b =
           Some (a + int (input_count h (take k (drop i xs))),
                 b + int (output_count h (take k (drop i xs))))"
  using assms(2)
proof (induction k arbitrary: i a b)
  case 0
  then show ?case by (simp add: input_count_def output_count_def)
next
  case (Suc k)
  then have i: "i < length xs" and rest: "Suc i + k \<le> length xs" by simp_all
  from slot_at_live [OF assms(1) i] obtain p s where
    p: "slot_at (Some xs) i = Some p" "deref h p = Some s" "stream_of h (xs ! i) = Some s"
    by blast
  have split: "take (Suc k) (drop i xs) = xs ! i # take k (drop (Suc i) xs)"
    using i by (simp add: Cons_nth_drop_Suc [symmetric])
  show ?case
    using p Suc.IH [OF rest]
    by (simp add: split input_count_def output_count_def isInputType_def isOutputType_def
        includes_input_def includes_output_def)
qed

text \<open>
  C4. On an array whose elements address live streams, \<^verbatim>\<open>isValidStreamSet\<close> answers true
  exactly when the array is not empty, at most one stream includes input and at least
  one includes output; a null array is rejected; the state it returns is the state it
  was given.
\<close>

theorem isValidStreamSet_iff:
  assumes "live_slots (heap w) xs"
  shows "isValidStreamSet (Some xs) (int (length xs)) w =
           Some (xs \<noteq> [] \<and> input_count (heap w) xs \<le> 1 \<and> 1 \<le> output_count (heap w) xs, w)
         \<and> isValidStreamSet None c w = Some (False, w)"
proof -
  have "countLoop (Some xs) 0 (length xs) (heap w) 0 0 =
          Some (int (input_count (heap w) xs), int (output_count (heap w) xs))"
    using countLoop_tally [OF assms, of 0 "length xs" 0 0] by simp
  then show ?thesis
    by (auto simp add: isValidStreamSet_def)
qed

theorem isValidStreamSet_iff_witness:
  "live_slots (heap two_streams) [Ptr (Some 0), Ptr (Some 1)] \<and>
   isValidStreamSet (Some [Ptr (Some 0), Ptr (Some 1)]) 2 two_streams = Some (True, two_streams) \<and>
   input_count (heap two_streams) [Ptr (Some 0), Ptr (Some 1)] = 1 \<and>
   output_count (heap two_streams) [Ptr (Some 0), Ptr (Some 1)] = 1"
proof -
  have live: "live_slots (heap two_streams) [Ptr (Some 0), Ptr (Some 1)]"
    by (simp add: live_slots_def stream_of_def deref_def two_streams_def)
  have tally: "input_count (heap two_streams) [Ptr (Some 0), Ptr (Some 1)] = 1"
    "output_count (heap two_streams) [Ptr (Some 0), Ptr (Some 1)] = 1"
    by (simp_all add: input_count_def output_count_def stream_of_def deref_def two_streams_def
        out_stream_def in_stream_def includes_input_def includes_output_def)
  from isValidStreamSet_iff [OF live, of 0] live tally show ?thesis by simp
qed

section \<open>The stream configurator\<close>

lemma stream_usage_eq: "stream_usage s = usage_for (mType s)"
  by (simp add: stream_usage_def usage_for_def isInputType_def isOutputType_def
      includes_input_def includes_output_def)

lemma configured_idem [simp]: "configured (configured s) = configured s"
  by (simp add: configured_def)

lemma setup_frame_refl: "setup_frame w w"
  unfolding setup_frame_def
proof (intro conjI allI impI)
  fix d assume "d < length (descs w)"
  have "descs w ! d = (descs w ! d)\<lparr>usage := usage (descs w ! d), max_buffers := max_buffers (descs w ! d)\<rparr>"
    by simp
  then show "\<exists>u m. descs w ! d = (descs w ! d)\<lparr>usage := u, max_buffers := m\<rparr>
            \<and> (m = max_buffers (descs w ! d) \<or> m = 1)" by blast
qed simp_all

lemma setup_frame_trans:
  assumes "setup_frame w w1" and "setup_frame w1 w2"
  shows "setup_frame w w2"
  unfolding setup_frame_def
proof (intro conjI allI impI)
  show "cam w2 = cam w" "length (heap w2) = length (heap w)" "length (descs w2) = length (descs w)"
    using assms by (simp_all add: setup_frame_def)
next
  fix a assume a: "a < length (heap w)"
  then have a1: "a < length (heap w1)" using assms(1) by (simp add: setup_frame_def)
  from assms(1) a have s1: "heap w1 ! a = heap w ! a
      \<or> (\<exists>s. heap w ! a = Some s \<and> heap w1 ! a = Some (configured s))"
    by (simp add: setup_frame_def)
  from assms(2) a1 have s2: "heap w2 ! a = heap w1 ! a
      \<or> (\<exists>s. heap w1 ! a = Some s \<and> heap w2 ! a = Some (configured s))"
    by (simp add: setup_frame_def)
  show "heap w2 ! a = heap w ! a
      \<or> (\<exists>s. heap w ! a = Some s \<and> heap w2 ! a = Some (configured s))"
  proof (cases "heap w ! a")
    case None
    then show ?thesis using s1 s2 by simp
  next
    case (Some s)
    then have "heap w1 ! a = Some s \<or> heap w1 ! a = Some (configured s)"
      using s1 by auto
    then show ?thesis
    proof
      assume "heap w1 ! a = Some s"
      then show ?thesis using s2 Some by simp
    next
      assume "heap w1 ! a = Some (configured s)"
      then show ?thesis using s2 Some by simp
    qed
  qed
next
  fix d assume d: "d < length (descs w)"
  then have d1: "d < length (descs w1)" using assms(1) by (simp add: setup_frame_def)
  from assms(1) d obtain u m where
    1: "descs w1 ! d = (descs w ! d)\<lparr>usage := u, max_buffers := m\<rparr>"
       "m = max_buffers (descs w ! d) \<or> m = 1"
    unfolding setup_frame_def by blast
  from assms(2) d1 obtain u' m' where
    2: "descs w2 ! d = (descs w1 ! d)\<lparr>usage := u', max_buffers := m'\<rparr>"
       "m' = max_buffers (descs w1 ! d) \<or> m' = 1"
    unfolding setup_frame_def by blast
  have "descs w2 ! d = (descs w ! d)\<lparr>usage := u', max_buffers := m'\<rparr>"
    using 1(1) 2(1) by simp
  moreover have "m' = max_buffers (descs w ! d) \<or> m' = 1"
    using 1 2(2) by auto
  ultimately show "\<exists>u m. descs w2 ! d = (descs w ! d)\<lparr>usage := u, max_buffers := m\<rparr>
            \<and> (m = max_buffers (descs w ! d) \<or> m = 1)" by blast
qed

lemma setup_step:
  assumes s: "deref (heap w) (Some a) = Some s" and b: "mStream s < length (descs w)"
  shows "\<exists>w1 w2. setUsage a (stream_usage s) w = Some w1 \<and> setMaxBuffers a 1 w1 = Some w2
           \<and> setup_frame w w2 \<and> heap w2 ! a = Some (configured s)
           \<and> max_buffers (descs w2 ! mStream s) = 1"
proof -
  from s have a: "a < length (heap w)" and ha: "heap w ! a = Some s"
    by (simp_all add: deref_def split: if_splits)
  define w1 where "w1 = w\<lparr>heap := (heap w)[a := Some (s\<lparr>mUsage := stream_usage s\<rparr>)],
      descs := (descs w)[mStream s := (descs w ! mStream s)\<lparr>usage := stream_usage s\<rparr>]\<rparr>"
  define w2 where "w2 = w1\<lparr>heap := (heap w1)[a := Some (s\<lparr>mUsage := stream_usage s, mMaxBuffers := 1\<rparr>)],
      descs := (descs w1)[mStream s := (descs w1 ! mStream s)\<lparr>max_buffers := 1\<rparr>]\<rparr>"
  have 1: "setUsage a (stream_usage s) w = Some w1"
    using s b by (simp add: setUsage_def w1_def)
  have d1: "deref (heap w1) (Some a) = Some (s\<lparr>mUsage := stream_usage s\<rparr>)"
    using a by (simp add: w1_def deref_def)
  have 2: "setMaxBuffers a 1 w1 = Some w2"
    using d1 b by (simp add: setMaxBuffers_def w2_def w1_def)
  have h2: "heap w2 = (heap w)[a := Some (configured s)]"
    by (simp add: w2_def w1_def configured_def stream_usage_eq)
  have ds2: "descs w2 = (descs w)[mStream s := (descs w ! mStream s)\<lparr>usage := stream_usage s, max_buffers := 1\<rparr>]"
    using b by (simp add: w2_def w1_def)
  have fr: "setup_frame w w2"
    unfolding setup_frame_def
  proof (intro conjI allI impI)
    show "cam w2 = cam w" by (simp add: w2_def w1_def)
    show "length (heap w2) = length (heap w)" by (simp add: h2)
    show "length (descs w2) = length (descs w)" by (simp add: ds2)
  next
    fix a' assume "a' < length (heap w)"
    then show "heap w2 ! a' = heap w ! a'
      \<or> (\<exists>s. heap w ! a' = Some s \<and> heap w2 ! a' = Some (configured s))"
      using ha by (cases "a' = a") (simp_all add: h2)
  next
    fix d assume d: "d < length (descs w)"
    show "\<exists>u m. descs w2 ! d = (descs w ! d)\<lparr>usage := u, max_buffers := m\<rparr>
            \<and> (m = max_buffers (descs w ! d) \<or> m = 1)"
    proof (cases "d = mStream s")
      case True
      then have "descs w2 ! d = (descs w ! d)\<lparr>usage := stream_usage s, max_buffers := 1\<rparr>"
        using d by (simp add: ds2)
      then show ?thesis by blast
    next
      case False
      then have "descs w2 ! d = (descs w ! d)\<lparr>usage := usage (descs w ! d), max_buffers := max_buffers (descs w ! d)\<rparr>"
        by (simp add: ds2)
      then show ?thesis by blast
    qed
  qed
  have "heap w2 ! a = Some (configured s)" using a by (simp add: h2)
  moreover have "max_buffers (descs w2 ! mStream s) = 1" using b by (simp add: ds2)
  ultimately show ?thesis using 1 2 fr by blast
qed

lemma setup_frame_deref:
  assumes "setup_frame w w1" and "deref (heap w) (Some a) = Some s"
  shows "deref (heap w1) (Some a) = Some s \<or> deref (heap w1) (Some a) = Some (configured s)"
proof -
  from assms(2) have a: "a < length (heap w)" and ha: "heap w ! a = Some s"
    by (simp_all add: deref_def split: if_splits)
  from assms(1) a have "length (heap w1) = length (heap w)"
    and "heap w1 ! a = heap w ! a \<or> (\<exists>s. heap w ! a = Some s \<and> heap w1 ! a = Some (configured s))"
    by (simp_all add: setup_frame_def)
  with a ha show ?thesis by (auto simp add: deref_def)
qed

lemma setup_frame_keeps_configured:
  assumes "setup_frame w w1" and "a < length (heap w)" and "heap w ! a = Some (configured s)"
  shows "heap w1 ! a = Some (configured s)"
proof -
  from assms(1,2) have "heap w1 ! a = heap w ! a
      \<or> (\<exists>s. heap w ! a = Some s \<and> heap w1 ! a = Some (configured s))"
    by (simp add: setup_frame_def)
  with assms(3) show ?thesis by auto
qed

lemma setup_frame_keeps_max:
  assumes "setup_frame w w1" and "d < length (descs w)" and "max_buffers (descs w ! d) = 1"
  shows "max_buffers (descs w1 ! d) = 1"
proof -
  from assms(1,2) obtain u m where
    "descs w1 ! d = (descs w ! d)\<lparr>usage := u, max_buffers := m\<rparr>"
    "m = max_buffers (descs w ! d) \<or> m = 1"
    unfolding setup_frame_def by blast
  with assms(3) show ?thesis by auto
qed

lemma setupLoop_ok:
  assumes "i + k \<le> length xs"
    and "\<forall>j. i \<le> j \<and> j < i + k \<longrightarrow>
           (\<exists>a s. xs ! j = Ptr (Some a) \<and> deref (heap w) (Some a) = Some s
              \<and> mStream s < length (descs w))"
  shows "\<exists>w'. setupLoop (Some xs) i k w = Some w' \<and> setup_frame w w' \<and>
           (\<forall>j. i \<le> j \<and> j < i + k \<longrightarrow>
              (\<exists>a s. xs ! j = Ptr (Some a) \<and> deref (heap w) (Some a) = Some s
                 \<and> heap w' ! a = Some (configured s)
                 \<and> max_buffers (descs w' ! mStream s) = 1))"
  using assms
proof (induction k arbitrary: i w)
  case 0
  then show ?case by (auto simp add: setup_frame_refl)
next
  case (Suc k)
  from Suc.prems have i: "i < length xs" and rest: "Suc i + k \<le> length xs" by simp_all
  have "i \<le> i \<and> i < i + Suc k" by simp
  with Suc.prems(2) obtain a s where
    xi: "xs ! i = Ptr (Some a)" and s: "deref (heap w) (Some a) = Some s"
    and b: "mStream s < length (descs w)"
    by blast
  from setup_step [OF s b] obtain w1 w2 where
    st: "setUsage a (stream_usage s) w = Some w1" "setMaxBuffers a 1 w1 = Some w2"
    and fr: "setup_frame w w2" and ha2: "heap w2 ! a = Some (configured s)"
    and m2: "max_buffers (descs w2 ! mStream s) = 1"
    by blast
  have len2: "length (heap w2) = length (heap w)" "length (descs w2) = length (descs w)"
    using fr by (simp_all add: setup_frame_def)
  have a: "a < length (heap w)" using s by (simp add: deref_def split: if_splits)
  have pre2: "\<forall>j. Suc i \<le> j \<and> j < Suc i + k \<longrightarrow>
           (\<exists>a s. xs ! j = Ptr (Some a) \<and> deref (heap w2) (Some a) = Some s
              \<and> mStream s < length (descs w2))"
  proof (intro allI impI)
    fix j assume j: "Suc i \<le> j \<and> j < Suc i + k"
    then have "i \<le> j \<and> j < i + Suc k" by simp
    with Suc.prems(2) obtain a' s' where
      1: "xs ! j = Ptr (Some a')" "deref (heap w) (Some a') = Some s'"
         "mStream s' < length (descs w)"
      by blast
    from setup_frame_deref [OF fr 1(2)] 1(1,3) len2
    show "\<exists>a s. xs ! j = Ptr (Some a) \<and> deref (heap w2) (Some a) = Some s
              \<and> mStream s < length (descs w2)"
      by (auto simp add: configured_def)
  qed
  from Suc.IH [OF rest pre2] obtain w' where
    run: "setupLoop (Some xs) (Suc i) k w2 = Some w'" and fr2: "setup_frame w2 w'"
    and post: "\<forall>j. Suc i \<le> j \<and> j < Suc i + k \<longrightarrow>
              (\<exists>a s. xs ! j = Ptr (Some a) \<and> deref (heap w2) (Some a) = Some s
                 \<and> heap w' ! a = Some (configured s)
                 \<and> max_buffers (descs w' ! mStream s) = 1)"
    by blast
  have sl: "slot_at (Some xs) i = Some (Some a)" using i xi by (simp add: slot_at_def)
  have "setupLoop (Some xs) i (Suc k) w = Some w'"
    using sl s st run by simp
  moreover have "setup_frame w w'" using fr fr2 by (rule setup_frame_trans)
  moreover have "\<forall>j. i \<le> j \<and> j < i + Suc k \<longrightarrow>
              (\<exists>a s. xs ! j = Ptr (Some a) \<and> deref (heap w) (Some a) = Some s
                 \<and> heap w' ! a = Some (configured s)
                 \<and> max_buffers (descs w' ! mStream s) = 1)"
  proof (intro allI impI)
    fix j assume j: "i \<le> j \<and> j < i + Suc k"
    show "\<exists>a s. xs ! j = Ptr (Some a) \<and> deref (heap w) (Some a) = Some s
                 \<and> heap w' ! a = Some (configured s)
                 \<and> max_buffers (descs w' ! mStream s) = 1"
    proof (cases "j = i")
      case True
      have "heap w' ! a = Some (configured s)"
        using setup_frame_keeps_configured [OF fr2 _ ha2] a len2 by simp
      moreover have "max_buffers (descs w' ! mStream s) = 1"
        using setup_frame_keeps_max [OF fr2 _ m2] b len2 by simp
      ultimately show ?thesis using True xi s by blast
    next
      case False
      with j have j': "Suc i \<le> j \<and> j < Suc i + k" by simp
      with post obtain a' s2 where
        2: "xs ! j = Ptr (Some a')" "deref (heap w2) (Some a') = Some s2"
           "heap w' ! a' = Some (configured s2)" "max_buffers (descs w' ! mStream s2) = 1"
        by blast
      from j Suc.prems(2) obtain a'' s' where
        1: "xs ! j = Ptr (Some a'')" "deref (heap w) (Some a'') = Some s'"
        by blast
      with 2(1) have eq: "a'' = a'" by simp
      from setup_frame_deref [OF fr 1(2)] 2(2) eq
      have "s2 = s' \<or> s2 = configured s'" by auto
      then have "configured s2 = configured s'" "mStream s2 = mStream s'"
        by (auto simp add: configured_def)
      with 1 2 eq show ?thesis by auto
    qed
  qed
  ultimately show ?case by blast
qed

text \<open>
  C5. On an array whose elements address live streams bound to existing descriptors,
  \<^verbatim>\<open>setupStreams\<close> returns (it has no failure path) and leaves every stream of the array as
  it was except for the usage, which is the write group if the type includes output
  joined with the read group if it includes input, and the maximum buffer count, which
  is 1; the device record is not touched.
\<close>

theorem setupStreams_assigns:
  assumes "bound_slots w xs"
  shows "\<exists>w'. setupStreams (Some xs) (int (length xs)) w = Some w' \<and> cam w' = cam w \<and>
           list_all (\<lambda>x. case stream_of (heap w) x of None \<Rightarrow> False
                          | Some s \<Rightarrow> stream_of (heap w') x
                              = Some (s\<lparr>mUsage := usage_for (mType s), mMaxBuffers := 1\<rparr>)) xs"
proof -
  have pre: "\<forall>j. 0 \<le> j \<and> j < 0 + length xs \<longrightarrow>
           (\<exists>a s. xs ! j = Ptr (Some a) \<and> deref (heap w) (Some a) = Some s
              \<and> mStream s < length (descs w))"
  proof (intro allI impI)
    fix j assume "0 \<le> j \<and> j < 0 + length xs"
    then have j: "j < length xs" by simp
    with assms have "case stream_of (heap w) (xs ! j) of None \<Rightarrow> False
                    | Some s \<Rightarrow> mStream s < length (descs w)"
      by (simp add: bound_slots_def list_all_length)
    then obtain s where s: "stream_of (heap w) (xs ! j) = Some s" "mStream s < length (descs w)"
      by (auto split: option.splits)
    then obtain a where "xs ! j = Ptr (Some a)" "deref (heap w) (Some a) = Some s"
      by (cases "xs ! j") (auto simp add: stream_of_def deref_def split: option.splits)
    with s show "\<exists>a s. xs ! j = Ptr (Some a) \<and> deref (heap w) (Some a) = Some s
              \<and> mStream s < length (descs w)" by blast
  qed
  from setupLoop_ok [of 0 "length xs" xs w, OF _ pre] obtain w' where
    run: "setupLoop (Some xs) 0 (length xs) w = Some w'" and fr: "setup_frame w w'"
    and post: "\<forall>j. 0 \<le> j \<and> j < 0 + length xs \<longrightarrow>
              (\<exists>a s. xs ! j = Ptr (Some a) \<and> deref (heap w) (Some a) = Some s
                 \<and> heap w' ! a = Some (configured s)
                 \<and> max_buffers (descs w' ! mStream s) = 1)"
    by auto
  have len: "length (heap w') = length (heap w)" using fr by (simp add: setup_frame_def)
  have "list_all (\<lambda>x. case stream_of (heap w) x of None \<Rightarrow> False
                          | Some s \<Rightarrow> stream_of (heap w') x
                              = Some (s\<lparr>mUsage := usage_for (mType s), mMaxBuffers := 1\<rparr>)) xs"
    unfolding list_all_length
  proof (intro allI impI)
    fix j assume j: "j < length xs"
    with post obtain a s where
      "xs ! j = Ptr (Some a)" "deref (heap w) (Some a) = Some s"
      "heap w' ! a = Some (configured s)"
      by auto
    then show "case stream_of (heap w) (xs ! j) of None \<Rightarrow> False
                          | Some s \<Rightarrow> stream_of (heap w') (xs ! j)
                              = Some (s\<lparr>mUsage := usage_for (mType s), mMaxBuffers := 1\<rparr>)"
      using len by (simp add: stream_of_def deref_def configured_def split: if_splits)
  qed
  moreover have "cam w' = cam w" using fr by (simp add: setup_frame_def)
  ultimately show ?thesis using run by (simp add: setupStreams_def)
qed

theorem setupStreams_assigns_witness:
  "bound_slots two_streams [Ptr (Some 0), Ptr (Some 1)] \<and>
   (\<exists>w'. setupStreams (Some [Ptr (Some 0), Ptr (Some 1)]) 2 two_streams = Some w' \<and>
      stream_of (heap w') (Ptr (Some 0))
        = Some (out_stream\<lparr>mUsage := GRALLOC_USAGE_SW_WRITE_OFTEN OR GRALLOC_USAGE_HW_CAMERA_WRITE,
                            mMaxBuffers := 1\<rparr>) \<and>
      stream_of (heap w') (Ptr (Some 1))
        = Some (in_stream\<lparr>mUsage := GRALLOC_USAGE_SW_READ_OFTEN OR GRALLOC_USAGE_HW_CAMERA_READ,
                           mMaxBuffers := 1\<rparr>))"
proof -
  have s0: "stream_of (heap two_streams) (Ptr (Some 0)) = Some out_stream"
    and s1: "stream_of (heap two_streams) (Ptr (Some (Suc 0))) = Some in_stream"
    by (simp_all add: stream_of_def deref_def two_streams_def)
  have bound: "bound_slots two_streams [Ptr (Some 0), Ptr (Some 1)]"
    by (simp add: bound_slots_def stream_of_def deref_def two_streams_def out_stream_def
        in_stream_def)
  have u0: "usage_for (mType out_stream)
              = GRALLOC_USAGE_SW_WRITE_OFTEN OR GRALLOC_USAGE_HW_CAMERA_WRITE"
    and u1: "usage_for (mType in_stream)
              = GRALLOC_USAGE_SW_READ_OFTEN OR GRALLOC_USAGE_HW_CAMERA_READ"
    by (simp_all add: usage_for_def includes_input_def includes_output_def out_stream_def
        in_stream_def)
  from setupStreams_assigns [OF bound] show ?thesis
    using bound by (auto simp add: s0 s1 u0 u1)
qed

section \<open>The fill loop\<close>

lemma derefD: "deref h (Some a) = Some s \<Longrightarrow> a < length h \<and> h ! a = Some s"
  by (simp add: deref_def split: if_splits)

lemma derefI: "a < length h \<Longrightarrow> h ! a = Some s \<Longrightarrow> deref h (Some a) = Some s"
  by (simp add: deref_def)

lemma isValidReuseStream_flag [simp]:
  "isValidReuseStream (s\<lparr>mReuse := b\<rparr>) i c = isValidReuseStream s i c"
  by (simp add: isValidReuseStream_def)

lemma isValidReuseStream_tag [simp]:
  "isValidReuseStream s i (c\<lparr>priv := p\<rparr>) = isValidReuseStream s i c"
  by (simp add: isValidReuseStream_def)

lemma isValidReuseStream_new [simp]: "isValidReuseStream (newStream i d c) i c"
  by (simp add: isValidReuseStream_def newStream_def)

lemma signals_reuse_tag [simp]: "signals_reuse (c\<lparr>priv := p\<rparr>) = signals_reuse c"
  by (simp add: signals_reuse_def)

lemma fill_frame_refl: "fill_frame L0 w w"
  by (simp add: fill_frame_def)

lemma fill_frame_trans:
  assumes 1: "fill_frame L0 w w1" and 2: "fill_frame L0 w1 w2"
  shows "fill_frame L0 w w2"
  unfolding fill_frame_def
proof (intro conjI allI impI)
  show "cam w2 = cam w" "length (heap w) \<le> length (heap w2)"
    "length (descs w2) = length (descs w)"
    using 1 2 by (simp_all add: fill_frame_def)
next
  fix a assume a: "a < length (heap w)"
  then have a1: "a < length (heap w1)" using 1 by (simp add: fill_frame_def)
  from 1 a have s1: "heap w1 ! a = heap w ! a
      \<or> (a < L0 \<and> (\<exists>s. heap w ! a = Some s \<and> heap w1 ! a = Some (s\<lparr>mReuse := True\<rparr>)))"
    by (simp add: fill_frame_def)
  from 2 a1 have s2: "heap w2 ! a = heap w1 ! a
      \<or> (a < L0 \<and> (\<exists>s. heap w1 ! a = Some s \<and> heap w2 ! a = Some (s\<lparr>mReuse := True\<rparr>)))"
    by (simp add: fill_frame_def)
  show "heap w2 ! a = heap w ! a
      \<or> (a < L0 \<and> (\<exists>s. heap w ! a = Some s \<and> heap w2 ! a = Some (s\<lparr>mReuse := True\<rparr>)))"
  proof (cases "heap w1 ! a = heap w ! a")
    case True
    with s2 show ?thesis by simp
  next
    case False
    with s1 obtain s where s: "a < L0" "heap w ! a = Some s"
      "heap w1 ! a = Some (s\<lparr>mReuse := True\<rparr>)" by blast
    with s2 have "heap w2 ! a = Some (s\<lparr>mReuse := True\<rparr>)" by auto
    with s show ?thesis by simp
  qed
next
  fix d assume d: "d < length (descs w)"
  then have d1: "d < length (descs w1)" using 1 by (simp add: fill_frame_def)
  have l1: "length (heap w) \<le> length (heap w1)" "length (heap w1) \<le> length (heap w2)"
    using 1 2 by (simp_all add: fill_frame_def)
  from 1 d have s1: "descs w1 ! d = descs w ! d
            \<or> (\<not> signals_reuse (descs w ! d)
                \<and> (\<exists>a. length (heap w) \<le> a \<and> a < length (heap w1)
                      \<and> descs w1 ! d = (descs w ! d)\<lparr>priv := Some a\<rparr>))"
    by (simp add: fill_frame_def)
  from 2 d1 have s2: "descs w2 ! d = descs w1 ! d
            \<or> (\<not> signals_reuse (descs w1 ! d)
                \<and> (\<exists>a. length (heap w1) \<le> a \<and> a < length (heap w2)
                      \<and> descs w2 ! d = (descs w1 ! d)\<lparr>priv := Some a\<rparr>))"
    by (simp add: fill_frame_def)
  show "descs w2 ! d = descs w ! d
            \<or> (\<not> signals_reuse (descs w ! d)
                \<and> (\<exists>a. length (heap w) \<le> a \<and> a < length (heap w2)
                      \<and> descs w2 ! d = (descs w ! d)\<lparr>priv := Some a\<rparr>))"
  proof (cases "descs w2 ! d = descs w1 ! d")
    case same2: True
    show ?thesis
    proof (cases "descs w1 ! d = descs w ! d")
      case True
      with same2 show ?thesis by simp
    next
      case False
      with s1 obtain a where "\<not> signals_reuse (descs w ! d)" "length (heap w) \<le> a"
        "a < length (heap w1)" "descs w1 ! d = (descs w ! d)\<lparr>priv := Some a\<rparr>" by blast
      with same2 l1 have "\<not> signals_reuse (descs w ! d) \<and> length (heap w) \<le> a
        \<and> a < length (heap w2) \<and> descs w2 ! d = (descs w ! d)\<lparr>priv := Some a\<rparr>" by simp
      then show ?thesis by blast
    qed
  next
    case False
    with s2 obtain a where a: "\<not> signals_reuse (descs w1 ! d)" "length (heap w1) \<le> a"
        "a < length (heap w2)" "descs w2 ! d = (descs w1 ! d)\<lparr>priv := Some a\<rparr>" by blast
    from s1 have "\<not> signals_reuse (descs w ! d) \<and> (descs w1 ! d)\<lparr>priv := Some a\<rparr>
        = (descs w ! d)\<lparr>priv := Some a\<rparr>"
      using a(1) by auto
    with a l1 have "\<not> signals_reuse (descs w ! d) \<and> length (heap w) \<le> a
        \<and> a < length (heap w2) \<and> descs w2 ! d = (descs w ! d)\<lparr>priv := Some a\<rparr>" by simp
    then show ?thesis by blast
  qed
qed

lemma fill_step_reuse:
  assumes i: "i < length ds" and ov: "length ds < 2147483648"
    and d: "ds ! i < length (descs w)"
    and r: "signals_reuse (descs w ! (ds ! i))"
    and p: "priv (descs w ! (ds ! i)) = Some a"
    and s: "deref (heap w) (Some a) = Some s"
    and v: "isValidReuseStream s (mId (cam w)) (descs w ! (ds ! i))"
  shows "fillStreams ds i (Suc k) w arr =
           fillStreams ds (Suc i) k (w\<lparr>heap := (heap w)[a := Some (s\<lparr>mReuse := True\<rparr>)]\<rparr>)
             (arr[i := Ptr (Some a)])"
proof -
  have n: "int i \<noteq> 2147483647" using i ov by linarith
  have same: "(descs w)[ds ! i := (descs w ! (ds ! i))\<lparr>priv := Some a\<rparr>] = descs w"
    using p by (metis camera3_stream.surjective camera3_stream.update_convs(7) list_update_id)
  have mb: "0 < max_buffers (descs w ! (ds ! i))" using r by (simp add: signals_reuse_def)
  show ?thesis
    using i d mb p s v n by (simp add: Let_def reuseStream_def same)
qed

lemma fill_step_fresh:
  assumes i: "i < length ds" and ov: "length ds < 2147483648"
    and d: "ds ! i < length (descs w)"
    and r: "\<not> signals_reuse (descs w ! (ds ! i))"
  shows "fillStreams ds i (Suc k) w arr =
           fillStreams ds (Suc i) k
             (w\<lparr>heap := heap w @ [Some (newStream (mId (cam w)) (ds ! i) (descs w ! (ds ! i)))],
                descs := (descs w)[ds ! i := (descs w ! (ds ! i))\<lparr>priv := Some (length (heap w))\<rparr>]\<rparr>)
             (arr[i := Ptr (Some (length (heap w)))])"
proof -
  have n: "int i \<noteq> 2147483647" using i ov by linarith
  have mb: "\<not> 0 < max_buffers (descs w ! (ds ! i))" using r by (simp add: signals_reuse_def)
  show ?thesis
    using i d mb n by (simp add: Let_def)
qed

lemma fill_step_mismatch:
  assumes i: "i < length ds" and m: "mismatch w (ds ! i)"
  shows "fillStreams ds i (Suc k) w arr = Some (False, w, arr[i := Ptr None])"
proof -
  from m have d: "ds ! i < length (descs w)"
    and mb: "0 < max_buffers (descs w ! (ds ! i))"
    by (simp_all add: mismatch_def signals_reuse_def)
  from m obtain s where s: "deref (heap w) (priv (descs w ! (ds ! i))) = Some s"
    and v: "\<not> isValidReuseStream s (mId (cam w)) (descs w ! (ds ! i))"
    by (auto simp add: mismatch_def split: option.splits)
  from s obtain a where a: "priv (descs w ! (ds ! i)) = Some a"
    by (cases "priv (descs w ! (ds ! i))") (simp_all add: deref_def)
  show ?thesis
    using i d mb a s v by (simp add: Let_def reuseStream_def)
qed

lemma fill_step:
  assumes i: "i < length ds" and ov: "length ds < 2147483648"
    and g: "good L0 w (ds ! i)" and L: "L0 \<le> length (heap w)"
  shows "\<exists>w1 a. (\<forall>k. fillStreams ds i (Suc k) w arr
                   = fillStreams ds (Suc i) k w1 (arr[i := Ptr (Some a)]))
           \<and> fill_frame L0 w w1 \<and> cand L0 w w1 (ds ! i) (Ptr (Some a))
           \<and> length (heap w1) \<le> Suc (length (heap w))
           \<and> (length (heap w) < length (heap w1) \<longrightarrow> a = length (heap w))"
proof (cases "signals_reuse (descs w ! (ds ! i))")
  case True
  from g have d: "ds ! i < length (descs w)" by (simp add: good_def)
  from g True obtain a s where p: "priv (descs w ! (ds ! i)) = Some a" and aL: "a < L0"
    and s: "deref (heap w) (Some a) = Some s"
    and v: "isValidReuseStream s (mId (cam w)) (descs w ! (ds ! i))"
    and b: "mStream s < length (descs w)"
    unfolding good_def by blast
  define w1 where "w1 = w\<lparr>heap := (heap w)[a := Some (s\<lparr>mReuse := True\<rparr>)]\<rparr>"
  have a: "a < length (heap w)" and ha: "heap w ! a = Some s" using derefD [OF s] by simp_all
  have run: "\<And>k. fillStreams ds i (Suc k) w arr
               = fillStreams ds (Suc i) k w1 (arr[i := Ptr (Some a)])"
    unfolding w1_def by (rule fill_step_reuse [OF i ov d True p s v])
  have fr: "fill_frame L0 w w1"
    unfolding fill_frame_def
  proof (intro conjI allI impI)
    fix a' assume "a' < length (heap w)"
    then show "heap w1 ! a' = heap w ! a'
      \<or> (a' < L0 \<and> (\<exists>s. heap w ! a' = Some s \<and> heap w1 ! a' = Some (s\<lparr>mReuse := True\<rparr>)))"
      using ha aL by (cases "a' = a") (simp_all add: w1_def)
  qed (simp_all add: w1_def)
  have "deref (heap w1) (Some a) = Some (s\<lparr>mReuse := True\<rparr>)"
    using a by (simp add: w1_def deref_def)
  then have cd: "cand L0 w w1 (ds ! i) (Ptr (Some a))"
    using v b True p aL by (simp add: cand_def)
  have len1: "length (heap w1) = length (heap w)" by (simp add: w1_def)
  show ?thesis
  proof (rule exI [of _ w1], rule exI [of _ a], intro conjI)
    show "\<forall>k. fillStreams ds i (Suc k) w arr
            = fillStreams ds (Suc i) k w1 (arr[i := Ptr (Some a)])"
      by (intro allI) (rule run)
    show "fill_frame L0 w w1" by (rule fr)
    show "cand L0 w w1 (ds ! i) (Ptr (Some a))" by (rule cd)
    show "length (heap w1) \<le> Suc (length (heap w))" using len1 by simp
    show "length (heap w) < length (heap w1) \<longrightarrow> a = length (heap w)" using len1 by simp
  qed
next
  case False
  from g have d: "ds ! i < length (descs w)" by (simp add: good_def)
  define c where "c = descs w ! (ds ! i)"
  define w1 where "w1 = w\<lparr>heap := heap w @ [Some (newStream (mId (cam w)) (ds ! i) c)],
                descs := (descs w)[ds ! i := c\<lparr>priv := Some (length (heap w))\<rparr>]\<rparr>"
  have run: "\<And>k. fillStreams ds i (Suc k) w arr
               = fillStreams ds (Suc i) k w1 (arr[i := Ptr (Some (length (heap w)))])"
    unfolding w1_def c_def by (rule fill_step_fresh [OF i ov d False])
  have fr: "fill_frame L0 w w1"
    unfolding fill_frame_def
  proof (intro conjI allI impI)
    fix a' assume "a' < length (heap w)"
    then show "heap w1 ! a' = heap w ! a'
      \<or> (a' < L0 \<and> (\<exists>s. heap w ! a' = Some s \<and> heap w1 ! a' = Some (s\<lparr>mReuse := True\<rparr>)))"
      by (simp add: w1_def nth_append)
  next
    fix d' assume d': "d' < length (descs w)"
    show "descs w1 ! d' = descs w ! d'
            \<or> (\<not> signals_reuse (descs w ! d')
                \<and> (\<exists>a. length (heap w) \<le> a \<and> a < length (heap w1)
                      \<and> descs w1 ! d' = (descs w ! d')\<lparr>priv := Some a\<rparr>))"
    proof (cases "d' = ds ! i")
      case True
      then have "\<not> signals_reuse (descs w ! d') \<and> length (heap w) \<le> length (heap w)
           \<and> length (heap w) < length (heap w1)
           \<and> descs w1 ! d' = (descs w ! d')\<lparr>priv := Some (length (heap w))\<rparr>"
        using False d by (simp add: w1_def c_def)
      then show ?thesis by blast
    next
      case False
      then show ?thesis by (simp add: w1_def)
    qed
  qed (simp_all add: w1_def)
  have dr: "deref (heap w1) (Some (length (heap w)))
              = Some (newStream (mId (cam w)) (ds ! i) c)"
    by (simp add: w1_def deref_def)
  have tag: "priv (descs w1 ! (ds ! i)) = Some (length (heap w))"
    using d by (simp add: w1_def)
  have len1: "length (heap w1) = Suc (length (heap w))" by (simp add: w1_def)
  have cd: "cand L0 w w1 (ds ! i) (Ptr (Some (length (heap w))))"
    unfolding cand_def
    using dr False d tag len1 by (simp add: c_def [symmetric]) (simp add: newStream_def)
  show ?thesis
  proof (rule exI [of _ w1], rule exI [of _ "length (heap w)"], intro conjI)
    show "\<forall>k. fillStreams ds i (Suc k) w arr
            = fillStreams ds (Suc i) k w1 (arr[i := Ptr (Some (length (heap w)))])"
      by (intro allI) (rule run)
    show "fill_frame L0 w w1" by (rule fr)
    show "cand L0 w w1 (ds ! i) (Ptr (Some (length (heap w))))" by (rule cd)
    show "length (heap w1) \<le> Suc (length (heap w))" using len1 by simp
    show "length (heap w) < length (heap w1) \<longrightarrow> length (heap w) = length (heap w)" by simp
  qed
qed

lemma fill_frame_signals:
  assumes "fill_frame L0 w w1" and "d < length (descs w)"
  shows "signals_reuse (descs w1 ! d) = signals_reuse (descs w ! d)"
    and "isValidReuseStream s i (descs w1 ! d) = isValidReuseStream s i (descs w ! d)"
    and "signals_reuse (descs w ! d) \<Longrightarrow> descs w1 ! d = descs w ! d"
proof -
  from assms have "descs w1 ! d = descs w ! d
            \<or> (\<not> signals_reuse (descs w ! d)
                \<and> (\<exists>a. descs w1 ! d = (descs w ! d)\<lparr>priv := Some a\<rparr>))"
    unfolding fill_frame_def by blast
  then show "signals_reuse (descs w1 ! d) = signals_reuse (descs w ! d)"
    and "isValidReuseStream s i (descs w1 ! d) = isValidReuseStream s i (descs w ! d)"
    and "signals_reuse (descs w ! d) \<Longrightarrow> descs w1 ! d = descs w ! d"
    by auto
qed

lemma fill_frame_deref:
  assumes "fill_frame L0 w w1" and "deref (heap w) (Some a) = Some s"
  shows "deref (heap w1) (Some a) = Some s
         \<or> (a < L0 \<and> deref (heap w1) (Some a) = Some (s\<lparr>mReuse := True\<rparr>))"
proof -
  from derefD [OF assms(2)] have a: "a < length (heap w)" and ha: "heap w ! a = Some s"
    by simp_all
  from assms(1) a have "length (heap w) \<le> length (heap w1)"
    and "heap w1 ! a = heap w ! a
      \<or> (a < L0 \<and> (\<exists>s. heap w ! a = Some s \<and> heap w1 ! a = Some (s\<lparr>mReuse := True\<rparr>)))"
    by (simp_all add: fill_frame_def)
  with a ha show ?thesis by (auto simp add: deref_def)
qed

lemma good_frame:
  assumes fr: "fill_frame L0 w w1" and g: "good L0 w d"
  shows "good L0 w1 d"
proof -
  from g have d: "d < length (descs w)" by (simp add: good_def)
  from fr have eq: "cam w1 = cam w" "length (descs w1) = length (descs w)"
    by (simp_all add: fill_frame_def)
  show ?thesis
  proof (cases "signals_reuse (descs w ! d)")
    case False
    then show ?thesis
      using d eq fill_frame_signals(1) [OF fr d] by (simp add: good_def)
  next
    case True
    with g obtain a s where p: "priv (descs w ! d) = Some a" and aL: "a < L0"
      and s: "deref (heap w) (Some a) = Some s"
      and v: "isValidReuseStream s (mId (cam w)) (descs w ! d)"
      and b: "mStream s < length (descs w)"
      unfolding good_def by blast
    have same: "descs w1 ! d = descs w ! d" by (rule fill_frame_signals(3) [OF fr d True])
    from fill_frame_deref [OF fr s] obtain s1 where
      "deref (heap w1) (Some a) = Some s1" "s1 = s \<or> s1 = s\<lparr>mReuse := True\<rparr>"
      by blast
    then have "deref (heap w1) (Some a) = Some s1
        \<and> isValidReuseStream s1 (mId (cam w)) (descs w ! d)
        \<and> mStream s1 < length (descs w)"
      using v b by auto
    then show ?thesis
      unfolding good_def using d eq same p aL by auto
  qed
qed

lemma mismatch_frame:
  assumes fr: "fill_frame L0 w w1" and m: "mismatch w d"
  shows "mismatch w1 d"
proof -
  from m have d: "d < length (descs w)" and r: "signals_reuse (descs w ! d)"
    by (simp_all add: mismatch_def)
  from fr have eq: "cam w1 = cam w" "length (descs w1) = length (descs w)"
    by (simp_all add: fill_frame_def)
  have same: "descs w1 ! d = descs w ! d" by (rule fill_frame_signals(3) [OF fr d r])
  from m obtain s where s: "deref (heap w) (priv (descs w ! d)) = Some s"
    and v: "\<not> isValidReuseStream s (mId (cam w)) (descs w ! d)"
    by (auto simp add: mismatch_def split: option.splits)
  from s obtain a where a: "priv (descs w ! d) = Some a"
    by (cases "priv (descs w ! d)") (simp_all add: deref_def)
  from fill_frame_deref [OF fr s [unfolded a]] obtain s1 where
    "deref (heap w1) (Some a) = Some s1" "s1 = s \<or> s1 = s\<lparr>mReuse := True\<rparr>"
    by blast
  then have "deref (heap w1) (Some a) = Some s1
      \<and> \<not> isValidReuseStream s1 (mId (cam w)) (descs w ! d)"
    using v by auto
  then show ?thesis
    using d r eq same a by (auto simp add: mismatch_def)
qed

lemma cand_keep:
  assumes fr: "fill_frame L0 w1 w2" and L: "L0 \<le> length (heap w)"
    and c: "cand L0 w w1 d x" and d: "d < length (descs w1)"
  shows "cand L0 w w2 d x"
proof -
  from fr have len: "length (heap w1) \<le> length (heap w2)" by (simp add: fill_frame_def)
  from c obtain a s where x: "x = Ptr (Some a)" and s: "deref (heap w1) (Some a) = Some s"
    and v: "isValidReuseStream s (mId (cam w)) (descs w ! d)"
    and b: "mStream s < length (descs w)"
    and k: "if signals_reuse (descs w ! d)
            then priv (descs w ! d) = Some a \<and> a < L0 \<and> mReuse s
            else length (heap w) \<le> a \<and> \<not> mReuse s \<and> mStream s = d
                 \<and> (\<exists>a'. priv (descs w1 ! d) = Some a' \<and> length (heap w) \<le> a'
                        \<and> a' < length (heap w1))"
    unfolding cand_def by blast
  show ?thesis
  proof (cases "signals_reuse (descs w ! d)")
    case True
    with k have k': "priv (descs w ! d) = Some a" "a < L0" "mReuse s" by simp_all
    from fill_frame_deref [OF fr s] k'(3)
    have "deref (heap w2) (Some a) = Some s \<or> deref (heap w2) (Some a) = Some (s\<lparr>mReuse := True\<rparr>)"
      by blast
    then obtain s2 where "deref (heap w2) (Some a) = Some s2"
      "isValidReuseStream s2 (mId (cam w)) (descs w ! d)" "mStream s2 < length (descs w)"
      "mReuse s2"
      using v b k'(3) by auto
    then show ?thesis
      unfolding cand_def using x True k' by auto
  next
    case False
    with k obtain a' where k': "length (heap w) \<le> a" "\<not> mReuse s" "mStream s = d"
      "priv (descs w1 ! d) = Some a'" "length (heap w) \<le> a'" "a' < length (heap w1)"
      by auto
    from fill_frame_deref [OF fr s] k'(1) L
    have s2: "deref (heap w2) (Some a) = Some s" by auto
    from fr d have "descs w2 ! d = descs w1 ! d
            \<or> (\<exists>a. length (heap w1) \<le> a \<and> a < length (heap w2)
                      \<and> descs w2 ! d = (descs w1 ! d)\<lparr>priv := Some a\<rparr>)"
      unfolding fill_frame_def by blast
    then have "\<exists>a''. priv (descs w2 ! d) = Some a'' \<and> length (heap w) \<le> a''
                        \<and> a'' < length (heap w2)"
    proof
      assume "descs w2 ! d = descs w1 ! d"
      with k'(4,5,6) len show ?thesis by auto
    next
      assume "\<exists>a. length (heap w1) \<le> a \<and> a < length (heap w2)
                      \<and> descs w2 ! d = (descs w1 ! d)\<lparr>priv := Some a\<rparr>"
      then obtain a2 where "length (heap w1) \<le> a2" "a2 < length (heap w2)"
        "descs w2 ! d = (descs w1 ! d)\<lparr>priv := Some a2\<rparr>" by blast
      with k'(5,6) show ?thesis by auto
    qed
    then show ?thesis
      unfolding cand_def using x s2 v b False k'(1,2,3) by auto
  qed
qed

lemma cand_rebase:
  assumes fr: "fill_frame L0 w w1" and d: "d < length (descs w)"
    and c: "cand L0 w1 w2 d x"
  shows "cand L0 w w2 d x"
proof -
  from fr have eq: "cam w1 = cam w" "length (descs w1) = length (descs w)"
    "length (heap w) \<le> length (heap w1)"
    by (simp_all add: fill_frame_def)
  note sg = fill_frame_signals [OF fr d]
  from c obtain a s where x: "x = Ptr (Some a)" and s: "deref (heap w2) (Some a) = Some s"
    and v: "isValidReuseStream s (mId (cam w1)) (descs w1 ! d)"
    and b: "mStream s < length (descs w1)"
    and k: "if signals_reuse (descs w1 ! d)
            then priv (descs w1 ! d) = Some a \<and> a < L0 \<and> mReuse s
            else length (heap w1) \<le> a \<and> \<not> mReuse s \<and> mStream s = d
                 \<and> (\<exists>a'. priv (descs w2 ! d) = Some a' \<and> length (heap w1) \<le> a'
                        \<and> a' < length (heap w2))"
    unfolding cand_def by blast
  have v': "isValidReuseStream s (mId (cam w)) (descs w ! d)"
    using v eq sg(2) by simp
  show ?thesis
  proof (cases "signals_reuse (descs w ! d)")
    case True
    then have "descs w1 ! d = descs w ! d" by (rule sg(3))
    with k True show ?thesis
      unfolding cand_def using x s v' b eq by auto
  next
    case False
    with k sg(1) obtain a' where "length (heap w1) \<le> a" "\<not> mReuse s" "mStream s = d"
      "priv (descs w2 ! d) = Some a'" "length (heap w1) \<le> a'" "a' < length (heap w2)"
      by auto
    then show ?thesis
      unfolding cand_def using x s v' b eq False by auto
  qed
qed

lemma filledD:
  assumes "filled L0 ds i k w arr w' arr'"
  shows "fill_frame L0 w w'"
    and "length arr' = length arr"
    and "\<And>j. j < length arr \<Longrightarrow> j < i \<or> i + k \<le> j \<Longrightarrow> arr' ! j = arr ! j"
    and "\<And>j. i \<le> j \<and> j < i + k \<Longrightarrow> cand L0 w w' (ds ! j) (arr' ! j)"
    and "\<And>b. length (heap w) \<le> b \<and> b < length (heap w')
           \<Longrightarrow> \<exists>j. i \<le> j \<and> j < i + k \<and> arr' ! j = Ptr (Some b)"
    and "\<And>j j' a a'. i \<le> j \<and> j < j' \<and> j' < i + k
           \<and> \<not> signals_reuse (descs w ! (ds ! j)) \<and> \<not> signals_reuse (descs w ! (ds ! j'))
           \<and> arr' ! j = Ptr (Some a) \<and> arr' ! j' = Ptr (Some a') \<Longrightarrow> a < a'"
  using assms unfolding filled_def by blast+

lemma fill_good:
  assumes "i + k \<le> length ds" and "length arr = length ds" and "length ds < 2147483648"
    and "L0 \<le> length (heap w)"
    and "\<forall>j. i \<le> j \<and> j < i + k \<longrightarrow> good L0 w (ds ! j)"
  shows "\<exists>w' arr'. (\<forall>k'. fillStreams ds i (k + k') w arr = fillStreams ds (i + k) k' w' arr')
           \<and> filled L0 ds i k w arr w' arr'"
  using assms
proof (induction k arbitrary: i w arr)
  case 0
  have "filled L0 ds i 0 w arr w arr"
    unfolding filled_def by (auto simp add: fill_frame_refl)
  then show ?case by (intro exI [of _ w] exI [of _ arr]) simp
next
  case (Suc k)
  note ov = \<open>length ds < 2147483648\<close>
  from Suc.prems have i: "i < length ds" and rest: "Suc i + k \<le> length ds"
    and la: "length arr = length ds" and L: "L0 \<le> length (heap w)"
    by simp_all
  have gj: "good L0 w (ds ! j)" if "i \<le> j \<and> j < i + Suc k" for j
    using Suc.prems(5) that by blast
  have din: "ds ! j < length (descs w)" if "i \<le> j \<and> j < i + Suc k" for j
    using gj [OF that] unfolding good_def by (rule conjunct1)
  have gi: "good L0 w (ds ! i)" by (rule gj) simp
  from fill_step [OF i ov gi L, of arr] obtain w1 a where
    run1: "\<forall>k. fillStreams ds i (Suc k) w arr
             = fillStreams ds (Suc i) k w1 (arr[i := Ptr (Some a)])"
    and fr1: "fill_frame L0 w w1" and c1: "cand L0 w w1 (ds ! i) (Ptr (Some a))"
    and len1: "length (heap w1) \<le> Suc (length (heap w))"
    and new1: "length (heap w) < length (heap w1) \<longrightarrow> a = length (heap w)"
    by blast
  define arr1 where "arr1 = arr[i := Ptr (Some a)]"
  have la1: "length arr1 = length ds" using la by (simp add: arr1_def)
  have hl: "length (heap w) \<le> length (heap w1)" and dl: "length (descs w1) = length (descs w)"
    using fr1 by (simp_all add: fill_frame_def)
  have L1: "L0 \<le> length (heap w1)" using L hl by simp
  have g1: "\<forall>j. Suc i \<le> j \<and> j < Suc i + k \<longrightarrow> good L0 w1 (ds ! j)"
  proof (intro allI impI)
    fix j assume "Suc i \<le> j \<and> j < Suc i + k"
    then have "i \<le> j \<and> j < i + Suc k" by simp
    then have "good L0 w (ds ! j)" by (rule gj)
    then show "good L0 w1 (ds ! j)" by (rule good_frame [OF fr1])
  qed
  from Suc.IH [OF rest la1 ov L1 g1] obtain w' arr' where
    run: "\<forall>k'. fillStreams ds (Suc i) (k + k') w1 arr1 = fillStreams ds (Suc i + k) k' w' arr'"
    and post: "filled L0 ds (Suc i) k w1 arr1 w' arr'"
    by blast
  note fr2 = filledD(1) [OF post] and la' = filledD(2) [OF post]
    and keep = filledD(3) [OF post] and cands = filledD(4) [OF post]
    and news = filledD(5) [OF post] and incr = filledD(6) [OF post]
  have ai: "arr' ! i = Ptr (Some a)"
    using keep [of i] i la la1 by (simp add: arr1_def)
  have di1: "ds ! i < length (descs w1)" using din [of i] dl by simp
  have ci: "cand L0 w w' (ds ! i) (arr' ! i)"
    unfolding ai by (rule cand_keep [OF fr2 L c1 di1])
  have "filled L0 ds i (Suc k) w arr w' arr'"
    unfolding filled_def
  proof (intro conjI allI impI)
    show "fill_frame L0 w w'" using fr1 fr2 by (rule fill_frame_trans)
    show "length arr' = length arr" using la' by (simp add: arr1_def)
  next
    fix j assume jl: "j < length arr" and o: "j < i \<or> i + Suc k \<le> j"
    then have "arr' ! j = arr1 ! j" by (intro keep) (auto simp add: arr1_def)
    also have "\<dots> = arr ! j" using o by (auto simp add: arr1_def)
    finally show "arr' ! j = arr ! j" .
  next
    fix j assume j: "i \<le> j \<and> j < i + Suc k"
    show "cand L0 w w' (ds ! j) (arr' ! j)"
    proof (cases "j = i")
      case True
      then show ?thesis using ci by simp
    next
      case False
      with j have "Suc i \<le> j \<and> j < Suc i + k" by simp
      then have "cand L0 w1 w' (ds ! j) (arr' ! j)" by (rule cands)
      then show ?thesis by (rule cand_rebase [OF fr1 din [OF j]])
    qed
  next
    fix b assume b: "length (heap w) \<le> b \<and> b < length (heap w')"
    show "\<exists>j. i \<le> j \<and> j < i + Suc k \<and> arr' ! j = Ptr (Some b)"
    proof (cases "b < length (heap w1)")
      case True
      with b len1 new1 have "b = a" by simp
      with ai show ?thesis by (intro exI [of _ i]) simp
    next
      case False
      with b have "length (heap w1) \<le> b \<and> b < length (heap w')" by simp
      from news [OF this] obtain j where
        "Suc i \<le> j \<and> j < Suc i + k \<and> arr' ! j = Ptr (Some b)" by blast
      then show ?thesis by (intro exI [of _ j]) simp
    qed
  next
    fix j j' x x'
    assume h: "i \<le> j \<and> j < j' \<and> j' < i + Suc k
             \<and> \<not> signals_reuse (descs w ! (ds ! j)) \<and> \<not> signals_reuse (descs w ! (ds ! j'))
             \<and> arr' ! j = Ptr (Some x) \<and> arr' ! j' = Ptr (Some x')"
    then have j': "Suc i \<le> j' \<and> j' < Suc i + k" by simp
    from h have jr: "i \<le> j \<and> j < i + Suc k" and j'r: "i \<le> j' \<and> j' < i + Suc k" by simp_all
    have sj': "\<not> signals_reuse (descs w1 ! (ds ! j'))"
      using h fill_frame_signals(1) [OF fr1 din [OF j'r]] by simp
    show "x < x'"
    proof (cases "j = i")
      case True
      with h ai have xa: "x = a" by simp
      from c1 obtain s where "deref (heap w1) (Some a) = Some s"
        unfolding cand_def by auto
      then have "a < length (heap w1)" by (simp add: derefD)
      moreover from cands [OF j'] sj' h have "length (heap w1) \<le> x'"
        unfolding cand_def by auto
      ultimately show ?thesis using xa by simp
    next
      case False
      with h have j: "Suc i \<le> j" by simp
      have sj: "\<not> signals_reuse (descs w1 ! (ds ! j))"
        using h fill_frame_signals(1) [OF fr1 din [OF jr]] by simp
      show ?thesis
        by (rule incr [of j j' x x']) (use j j' sj sj' h in simp)
    qed
  qed
  moreover have "\<forall>k'. fillStreams ds i (Suc k + k') w arr = fillStreams ds (i + Suc k) k' w' arr'"
  proof
    fix k'
    have "fillStreams ds i (Suc k + k') w arr = fillStreams ds (Suc i) (k + k') w1 arr1"
      using run1 by (simp only: arr1_def add_Suc)
    also have "\<dots> = fillStreams ds (Suc i + k) k' w' arr'" using run by blast
    finally show "fillStreams ds i (Suc k + k') w arr = fillStreams ds (i + Suc k) k' w' arr'"
      by (simp only: add_Suc add_Suc_right)
  qed
  ultimately show ?case by blast
qed

section \<open>Clearing the reuse markers\<close>

lemma sint_small:
  fixes x :: "32 word"
  assumes "unat x < 2147483648"
  shows "sint x = int (unat x)"
proof -
  have "int (unat x) < 2147483648" using assms by linarith
  then have u: "uint x < 2 ^ 31" by (simp only: uint_nat [symmetric]) simp
  have "- (2 ^ 31) \<le> uint x"
  proof -
    have "- (2 ^ 31) \<le> (0::int)" by simp
    also have "0 \<le> uint x" by (rule uint_ge_0)
    finally show ?thesis .
  qed
  with u have "signed_take_bit 31 (uint x) = uint x"
    by (intro signed_take_bit_int_eq_self)
  then have "sint x = uint x" by (simp only: sint_uint) simp
  then show ?thesis by (simp only: uint_nat)
qed

lemma unflag_flag [simp]: "unflag (s\<lparr>mReuse := b\<rparr>) = unflag s"
  by (simp add: unflag_def)

lemma unflag_eqD:
  assumes "unflag s' = unflag s"
  shows "s' = s\<lparr>mReuse := mReuse s'\<rparr>"
    and "isValidReuseStream s' i c = isValidReuseStream s i c"
    and "mStream s' = mStream s" and "mType s' = mType s"
proof -
  have "s' = (unflag s')\<lparr>mReuse := mReuse s'\<rparr>" by (simp add: unflag_def)
  also have "\<dots> = (unflag s)\<lparr>mReuse := mReuse s'\<rparr>" using assms by simp
  finally show e: "s' = s\<lparr>mReuse := mReuse s'\<rparr>" by (simp add: unflag_def)
  show "isValidReuseStream s' i c = isValidReuseStream s i c"
    by (subst e) simp
  show "mStream s' = mStream s" by (subst e) simp
  show "mType s' = mType s" by (subst e) simp
qed

lemma flag_eq_refl: "flag_eq h h"
  by (simp add: flag_eq_def)

lemma flag_eqD:
  assumes "flag_eq h h'" and "deref h (Some a) = Some s"
  shows "\<exists>s'. deref h' (Some a) = Some s' \<and> unflag s' = unflag s"
proof -
  from derefD [OF assms(2)] have a: "a < length h" "h ! a = Some s" by simp_all
  with assms(1) have "length h \<le> length h'"
    and "map_option unflag (h' ! a) = Some (unflag s)"
    by (simp_all add: flag_eq_def)
  with a show ?thesis by (auto simp add: deref_def)
qed

lemma flag_eq_trans:
  assumes 1: "flag_eq h h1" and 2: "flag_eq h1 h2"
  shows "flag_eq h h2"
  using assms by (simp add: flag_eq_def)

lemma flag_eq_update:
  assumes "a < length h" and "h ! a = Some s"
  shows "flag_eq h (h[a := Some (s\<lparr>mReuse := b\<rparr>)])"
  unfolding flag_eq_def
proof (intro conjI allI impI)
  fix a' assume "a' < length h"
  then show "map_option unflag (h[a := Some (s\<lparr>mReuse := b\<rparr>)] ! a') = map_option unflag (h ! a')"
    using assms by (cases "a' = a") simp_all
qed simp

lemma live_slots_flag_eq:
  assumes "flag_eq h h'" and "live_slots h xs"
  shows "live_slots h' xs"
  unfolding live_slots_def list_all_iff
proof
  fix x assume "x \<in> set xs"
  with assms(2) obtain s where s: "stream_of h x = Some s"
    by (auto simp add: live_slots_def list_all_iff)
  then obtain a where x: "x = Ptr (Some a)" and d: "deref h (Some a) = Some s"
    by (cases x) (auto simp add: stream_of_def deref_def split: option.splits)
  from flag_eqD [OF assms(1) d] show "stream_of h' x \<noteq> None"
    by (auto simp add: x stream_of_def)
qed

lemma markUnused_ok:
  assumes "live_slots h xs" and "i + k \<le> length xs"
  shows "\<exists>h'. markUnused (Some xs) i k h = Some h' \<and> flag_eq h h' \<and> length h' = length h"
  using assms
proof (induction k arbitrary: i h)
  case 0
  then show ?case by (simp add: flag_eq_refl)
next
  case (Suc k)
  then have i: "i < length xs" and rest: "Suc i + k \<le> length xs" by simp_all
  from slot_at_live [OF Suc.prems(1) i] obtain p s where
    p: "slot_at (Some xs) i = Some p" "deref h p = Some s" by blast
  then obtain a where pa: "p = Some a" by (cases p) (simp_all add: deref_def)
  from derefD [OF p(2) [unfolded pa]] have a: "a < length h" "h ! a = Some s" by simp_all
  define h1 where "h1 = h[a := Some (s\<lparr>mReuse := False\<rparr>)]"
  have f1: "flag_eq h h1" unfolding h1_def by (rule flag_eq_update [OF a])
  have l1: "live_slots h1 xs" by (rule live_slots_flag_eq [OF f1 Suc.prems(1)])
  from Suc.IH [OF l1 rest] obtain h' where
    run: "markUnused (Some xs) (Suc i) k h1 = Some h'" and f2: "flag_eq h1 h'"
    and len: "length h' = length h1" by blast
  have "markUnused (Some xs) i (Suc k) h = Some h'"
    using p pa run by (simp add: h1_def)
  moreover have "flag_eq h h'" using f1 f2 by (rule flag_eq_trans)
  moreover have "length h' = length h" using len by (simp add: h1_def)
  ultimately show ?case by blast
qed

lemma markUnused_committed:
  assumes "committed_ok w"
  shows "\<exists>h'. markUnused (mStreams (cam w)) 0 (nat (mNumStreams (cam w))) (heap w) = Some h'
           \<and> flag_eq (heap w) h' \<and> length h' = length (heap w)"
proof (cases "mStreams (cam w)")
  case None
  with assms have "mNumStreams (cam w) = 0" by (simp add: committed_ok_def committed_def)
  then show ?thesis by (simp add: flag_eq_refl)
next
  case (Some xs)
  with assms have n: "nat (mNumStreams (cam w)) = length xs" and l: "live_slots (heap w) xs"
    by (simp_all add: committed_ok_def committed_def)
  from markUnused_ok [OF l, of 0 "length xs"] show ?thesis
    by (simp add: Some n)
qed

section \<open>Destroying streams\<close>

lemma destroyLoop_ok:
  assumes "i + k \<le> length xs"
    and "\<forall>j. i \<le> j \<and> j < i + k \<longrightarrow>
           xs ! j = Ptr None \<or> (\<exists>a s. xs ! j = Ptr (Some a) \<and> deref h (Some a) = Some s)"
    and "\<forall>j j' a s. i \<le> j \<and> j < j' \<and> j' < i + k \<and> xs ! j = Ptr (Some a)
           \<and> xs ! j' = Ptr (Some a) \<and> deref h (Some a) = Some s \<longrightarrow> mReuse s"
  shows "\<exists>h'. destroyLoop (Some xs) i k h = Some h' \<and> length h' = length h
           \<and> (\<forall>a<length h. h' ! a = h ! a
                 \<or> (h' ! a = None \<and> (\<exists>j s. i \<le> j \<and> j < i + k \<and> xs ! j = Ptr (Some a)
                                          \<and> h ! a = Some s \<and> \<not> mReuse s)))
           \<and> (\<forall>j a s. i \<le> j \<and> j < i + k \<and> xs ! j = Ptr (Some a)
                 \<and> deref h (Some a) = Some s \<and> \<not> mReuse s \<longrightarrow> h' ! a = None)"
  using assms
proof (induction k arbitrary: i h)
  case 0
  then show ?case by auto
next
  case (Suc k)
  from Suc.prems(1) have i: "i < length xs" and rest: "Suc i + k \<le> length xs" by simp_all
  have slots: "xs ! j = Ptr None \<or> (\<exists>a s. xs ! j = Ptr (Some a) \<and> deref h (Some a) = Some s)"
    if "i \<le> j \<and> j < i + Suc k" for j
    using Suc.prems(2) that by blast
  have dup: "mReuse s"
    if "i \<le> j \<and> j < j' \<and> j' < i + Suc k" "xs ! j = Ptr (Some a)" "xs ! j' = Ptr (Some a)"
      "deref h (Some a) = Some s" for j j' a s
    using Suc.prems(3) that by blast
  have ii: "i \<le> i \<and> i < i + Suc k" by simp
  text \<open>The heap after the body of the loop at index \<open>i\<close>.\<close>
  define h1 where "h1 =
     (case xs ! i of
        Ptr (Some a) \<Rightarrow> (case deref h (Some a) of
                           Some s \<Rightarrow> if \<not> mReuse s then h[a := None] else h
                         | None \<Rightarrow> h)
      | _ \<Rightarrow> h)"
  have unfold: "destroyLoop (Some xs) i (Suc k) h = destroyLoop (Some xs) (Suc i) k h1"
    using slots [OF ii] i by (auto simp add: slot_at_def h1_def)
  have len1: "length h1 = length h"
    by (simp add: h1_def split: slot.splits option.splits)
  text \<open>Which address, if any, the body deletes.\<close>
  have h1_cases: "h1 = h \<or> (\<exists>a s. xs ! i = Ptr (Some a) \<and> deref h (Some a) = Some s
                     \<and> \<not> mReuse s \<and> h1 = h[a := None])"
    by (auto simp add: h1_def split: slot.splits option.splits)
  have keep1: "deref h1 (Some a') = Some s'"
    if j: "Suc i \<le> j \<and> j < Suc i + k" and x: "xs ! j = Ptr (Some a')"
      and d: "deref h (Some a') = Some s'" for j a' s'
  proof -
    from h1_cases show ?thesis
    proof
      assume "h1 = h" with d show ?thesis by simp
    next
      assume "\<exists>a s. xs ! i = Ptr (Some a) \<and> deref h (Some a) = Some s
                     \<and> \<not> mReuse s \<and> h1 = h[a := None]"
      then obtain a s where a: "xs ! i = Ptr (Some a)" "deref h (Some a) = Some s"
        "\<not> mReuse s" "h1 = h[a := None]" by blast
      have "a' \<noteq> a"
      proof
        assume "a' = a"
        with dup [of i j a s] j a x have "mReuse s" by simp
        with a(3) show False by simp
      qed
      with derefD [OF d] a(4) show ?thesis by (simp add: deref_def)
    qed
  qed
  have back1: "deref h (Some a') = Some s'" if "deref h1 (Some a') = Some s'" for a' s'
    using h1_cases that by (auto simp add: deref_def nth_list_update split: if_splits)
  have slots1: "\<forall>j. Suc i \<le> j \<and> j < Suc i + k \<longrightarrow>
           xs ! j = Ptr None \<or> (\<exists>a s. xs ! j = Ptr (Some a) \<and> deref h1 (Some a) = Some s)"
  proof (intro allI impI)
    fix j assume j: "Suc i \<le> j \<and> j < Suc i + k"
    then have "i \<le> j \<and> j < i + Suc k" by simp
    from slots [OF this] show "xs ! j = Ptr None
        \<or> (\<exists>a s. xs ! j = Ptr (Some a) \<and> deref h1 (Some a) = Some s)"
      using keep1 [OF j] by blast
  qed
  have dup1: "\<forall>j j' a s. Suc i \<le> j \<and> j < j' \<and> j' < Suc i + k \<and> xs ! j = Ptr (Some a)
           \<and> xs ! j' = Ptr (Some a) \<and> deref h1 (Some a) = Some s \<longrightarrow> mReuse s"
  proof (intro allI impI)
    fix j j' a s
    assume h: "Suc i \<le> j \<and> j < j' \<and> j' < Suc i + k \<and> xs ! j = Ptr (Some a)
           \<and> xs ! j' = Ptr (Some a) \<and> deref h1 (Some a) = Some s"
    then have "i \<le> j \<and> j < j' \<and> j' < i + Suc k" by simp
    then show "mReuse s" using h back1 by (intro dup [of j j' a s]) simp_all
  qed
  from Suc.IH [OF rest slots1 dup1] obtain h' where
    run: "destroyLoop (Some xs) (Suc i) k h1 = Some h'" and len: "length h' = length h1"
    and only: "\<And>a. a < length h1 \<Longrightarrow> h' ! a = h1 ! a
                 \<or> (h' ! a = None \<and> (\<exists>j s. Suc i \<le> j \<and> j < Suc i + k \<and> xs ! j = Ptr (Some a)
                                          \<and> h1 ! a = Some s \<and> \<not> mReuse s))"
    and all: "\<And>j a s. Suc i \<le> j \<and> j < Suc i + k \<and> xs ! j = Ptr (Some a)
                 \<and> deref h1 (Some a) = Some s \<and> \<not> mReuse s \<Longrightarrow> h' ! a = None"
    by blast
  have only': "h' ! b = h ! b
                 \<or> (h' ! b = None \<and> (\<exists>j s. i \<le> j \<and> j < i + Suc k \<and> xs ! j = Ptr (Some b)
                                          \<and> h ! b = Some s \<and> \<not> mReuse s))"
    if b: "b < length h" for b
  proof -
    from b len1 have b1: "b < length h1" by simp
    from only [OF b1] show ?thesis
    proof
      assume e: "h' ! b = h1 ! b"
      from h1_cases show ?thesis
      proof
        assume "h1 = h" with e show ?thesis by simp
      next
        assume "\<exists>a s. xs ! i = Ptr (Some a) \<and> deref h (Some a) = Some s
                     \<and> \<not> mReuse s \<and> h1 = h[a := None]"
        then obtain a s where a: "xs ! i = Ptr (Some a)" "deref h (Some a) = Some s"
          "\<not> mReuse s" "h1 = h[a := None]" by blast
        show ?thesis
        proof (cases "b = a")
          case True
          have "h' ! b = None" using e a(4) b True by simp
          moreover have "i \<le> i \<and> i < i + Suc k \<and> xs ! i = Ptr (Some b) \<and> h ! b = Some s
              \<and> \<not> mReuse s"
            using a True derefD [OF a(2)] by simp
          ultimately show ?thesis by blast
        next
          case False
          with e a(4) show ?thesis by simp
        qed
      qed
    next
      assume "h' ! b = None \<and> (\<exists>j s. Suc i \<le> j \<and> j < Suc i + k \<and> xs ! j = Ptr (Some b)
                                          \<and> h1 ! b = Some s \<and> \<not> mReuse s)"
      then obtain j s where n: "h' ! b = None" and j: "Suc i \<le> j \<and> j < Suc i + k"
        and x: "xs ! j = Ptr (Some b)" and s: "h1 ! b = Some s" "\<not> mReuse s" by blast
      from s(1) b1 have "deref h1 (Some b) = Some s" by (simp add: deref_def)
      then have "deref h (Some b) = Some s" by (rule back1)
      then have "h ! b = Some s" by (simp add: derefD)
      moreover from j have "i \<le> j \<and> j < i + Suc k" by simp
      ultimately show ?thesis using n x s(2) by blast
    qed
  qed
  have all': "h' ! a = None"
    if j: "i \<le> j \<and> j < i + Suc k" and x: "xs ! j = Ptr (Some a)"
      and d: "deref h (Some a) = Some s" and r: "\<not> mReuse s" for j a s
  proof (cases "j = i")
    case True
    with x d r have h1a: "h1 = h[a := None]" by (simp add: h1_def)
    from derefD [OF d] have a: "a < length h" by simp
    then have a1: "a < length h1" using len1 by simp
    from only [OF a1] h1a a show ?thesis by auto
  next
    case False
    with j have j': "Suc i \<le> j \<and> j < Suc i + k" by simp
    from keep1 [OF j' x d] have "deref h1 (Some a) = Some s" .
    with all [of j a s] j' x r show ?thesis by simp
  qed
  have "destroyLoop (Some xs) i (Suc k) h = Some h'" using unfold run by simp
  moreover have "length h' = length h" using len len1 by simp
  ultimately show ?case using only' all' by blast
qed

section \<open>The transaction\<close>

lemma desc_ok_good:
  assumes ok: "desc_ok w d" and f: "flag_eq (heap w) h0"
  shows "good (length (heap w)) (w\<lparr>heap := h0\<rparr>) d"
proof (cases "signals_reuse (descs w ! d)")
  case False
  with ok show ?thesis by (simp add: desc_ok_def good_def)
next
  case True
  with ok obtain s where s: "deref (heap w) (priv (descs w ! d)) = Some s"
    and v: "isValidReuseStream s (mId (cam w)) (descs w ! d)"
    and b: "mStream s < length (descs w)" and d: "d < length (descs w)"
    by (auto simp add: desc_ok_def split: option.splits)
  from s obtain a where a: "priv (descs w ! d) = Some a"
    by (cases "priv (descs w ! d)") (simp_all add: deref_def)
  from s a have sa: "deref (heap w) (Some a) = Some s" by simp
  from flag_eqD [OF f sa] obtain s' where s': "deref h0 (Some a) = Some s'"
    and u: "unflag s' = unflag s" by blast
  have "a < length (heap w)" using derefD [OF sa] by simp
  moreover have "isValidReuseStream s' (mId (cam w)) (descs w ! d)"
    using v unflag_eqD(2) [OF u] by simp
  moreover have "mStream s' < length (descs w)" using b unflag_eqD(3) [OF u] by simp
  ultimately show ?thesis
    unfolding good_def using d a s' by auto
qed

lemma mismatch_flag_eq:
  assumes m: "mismatch w d" and f: "flag_eq (heap w) h0"
  shows "mismatch (w\<lparr>heap := h0\<rparr>) d"
proof -
  from m obtain s where s: "deref (heap w) (priv (descs w ! d)) = Some s"
    and v: "\<not> isValidReuseStream s (mId (cam w)) (descs w ! d)"
    and d: "d < length (descs w)" "signals_reuse (descs w ! d)"
    by (auto simp add: mismatch_def split: option.splits)
  from s obtain a where a: "priv (descs w ! d) = Some a"
    by (cases "priv (descs w ! d)") (simp_all add: deref_def)
  from s a have sa: "deref (heap w) (Some a) = Some s" by simp
  from flag_eqD [OF f sa] obtain s' where s': "deref h0 (Some a) = Some s'"
    and u: "unflag s' = unflag s" by blast
  have "\<not> isValidReuseStream s' (mId (cam w)) (descs w ! d)"
    using v unflag_eqD(2) [OF u] by simp
  then show ?thesis
    unfolding mismatch_def using d a s' by simp
qed

lemma fill_frame_flag_eq:
  assumes "fill_frame L0 w w'"
  shows "flag_eq (heap w) (heap w')"
  unfolding flag_eq_def
proof (intro conjI allI impI)
  show "length (heap w) \<le> length (heap w')" using assms by (simp add: fill_frame_def)
next
  fix a assume "a < length (heap w)"
  with assms have "heap w' ! a = heap w ! a
      \<or> (\<exists>s. heap w ! a = Some s \<and> heap w' ! a = Some (s\<lparr>mReuse := True\<rparr>))"
    unfolding fill_frame_def by blast
  then show "map_option unflag (heap w' ! a) = map_option unflag (heap w ! a)"
    by auto
qed

lemma setup_frame_flag:
  assumes "setup_frame w w'" and "deref (heap w) (Some a) = Some s"
  shows "\<exists>s'. deref (heap w') (Some a) = Some s' \<and> mReuse s' = mReuse s
           \<and> mStream s' = mStream s
           \<and> isValidReuseStream s' i c = isValidReuseStream s i c"
proof -
  from setup_frame_deref [OF assms] show ?thesis
    by (auto simp add: configured_def isValidReuseStream_def)
qed

lemma destroyLoop_destroyed:
  assumes "i + k \<le> length xs"
    and "\<forall>j. i \<le> j \<and> j < i + k \<longrightarrow>
           xs ! j = Ptr None \<or> (\<exists>a s. xs ! j = Ptr (Some a) \<and> deref h (Some a) = Some s)"
    and "\<forall>j j' a s. i \<le> j \<and> j < j' \<and> j' < i + k \<and> xs ! j = Ptr (Some a)
           \<and> xs ! j' = Ptr (Some a) \<and> deref h (Some a) = Some s \<longrightarrow> mReuse s"
  shows "\<exists>h'. destroyLoop (Some xs) i k h = Some h' \<and> destroyed xs i k h h'"
  unfolding destroyed_def by (rule destroyLoop_ok [OF assms])

lemma destroyedD:
  assumes "destroyed xs i k h h'"
  shows "length h' = length h"
    and "\<And>a. a < length h \<Longrightarrow> h' ! a = h ! a
            \<or> (h' ! a = None \<and> (\<exists>j s. i \<le> j \<and> j < i + k \<and> xs ! j = Ptr (Some a)
                                     \<and> h ! a = Some s \<and> \<not> mReuse s))"
    and "\<And>j a s. i \<le> j \<and> j < i + k \<and> xs ! j = Ptr (Some a)
            \<and> deref h (Some a) = Some s \<and> \<not> mReuse s \<Longrightarrow> h' ! a = None"
  using assms unfolding destroyed_def by blast+

lemma fill_run:
  assumes c: "call_ok w sc" and m: "m \<le> length (streams sc)"
    and ok: "\<forall>j<m. desc_ok w (streams sc ! j)"
  shows "\<exists>h0 w1 arr1.
           markUnused (mStreams (cam w)) 0 (nat (mNumStreams (cam w))) (heap w) = Some h0
           \<and> flag_eq (heap w) h0 \<and> length h0 = length (heap w)
           \<and> (\<forall>k'. fillStreams (streams sc) 0 (m + k') (w\<lparr>heap := h0\<rparr>)
                       (replicate (length (streams sc)) Uninit)
                     = fillStreams (streams sc) m k' w1 arr1)
           \<and> filled (length (heap w)) (streams sc) 0 m (w\<lparr>heap := h0\<rparr>)
                 (replicate (length (streams sc)) Uninit) w1 arr1"
proof -
  from c have co: "committed_ok w" and ov: "length (streams sc) < 2147483648"
    by (simp_all add: call_ok_def)
  from markUnused_committed [OF co] obtain h0 where
    mu: "markUnused (mStreams (cam w)) 0 (nat (mNumStreams (cam w))) (heap w) = Some h0"
    and f: "flag_eq (heap w) h0" and l: "length h0 = length (heap w)" by blast
  have g: "\<forall>j. 0 \<le> j \<and> j < 0 + m \<longrightarrow> good (length (heap w)) (w\<lparr>heap := h0\<rparr>) (streams sc ! j)"
    using ok desc_ok_good [OF _ f] by simp
  have "\<exists>w' arr'. (\<forall>k'. fillStreams (streams sc) 0 (m + k') (w\<lparr>heap := h0\<rparr>)
                        (replicate (length (streams sc)) Uninit)
                      = fillStreams (streams sc) (0 + m) k' w' arr')
           \<and> filled (length (heap w)) (streams sc) 0 m (w\<lparr>heap := h0\<rparr>)
                 (replicate (length (streams sc)) Uninit) w' arr'"
    by (rule fill_good [OF _ _ ov _ g]) (use m l in simp_all)
  then obtain w1 arr1 where
    "\<forall>k'. fillStreams (streams sc) 0 (m + k') (w\<lparr>heap := h0\<rparr>)
                        (replicate (length (streams sc)) Uninit)
                      = fillStreams (streams sc) m k' w1 arr1"
    "filled (length (heap w)) (streams sc) 0 m (w\<lparr>heap := h0\<rparr>)
                 (replicate (length (streams sc)) Uninit) w1 arr1"
    by auto
  with mu f l show ?thesis by blast
qed

lemma abort_destroy:
  assumes fl: "filled L0 ds 0 m w0 arr0 w1 arr1" and L0: "L0 = length (heap w0)"
    and la: "length arr0 = n"
    and arr: "arr = arr1 \<and> m = n \<or> arr = arr1[m := Ptr None] \<and> Suc m = n"
  shows "\<exists>h2. destroyStreams (Some arr) (int n) (heap w1) = Some h2
           \<and> length h2 = length (heap w1)
           \<and> (\<forall>a<L0. h2 ! a = heap w1 ! a)
           \<and> (\<forall>a. L0 \<le> a \<and> a < length (heap w1) \<longrightarrow> h2 ! a = None)"
proof -
  note fr = filledD(1) [OF fl] and la1 = filledD(2) [OF fl] and cands = filledD(4) [OF fl]
    and news = filledD(5) [OF fl] and incr = filledD(6) [OF fl]
  have len: "length arr = n" using arr la la1 by auto
  have mn: "m \<le> n" using arr by auto
  have lo: "arr ! j = arr1 ! j" if "j < m" for j
    using arr that by auto
  have hi: "arr ! j = Ptr None" if "m \<le> j" "j < n" for j
  proof -
    from arr that have a: "arr = arr1[m := Ptr None]" and "Suc m = n" by auto
    with that have "j = m" by simp
    then show ?thesis using a that la la1 by simp
  qed
  have cd: "cand L0 w0 w1 (ds ! j) (arr ! j)" if "j < m" for j
    using cands [of j] that lo by simp
  have below: "j < m" if "j < n" "arr ! j = Ptr (Some a)" for j a
  proof (rule ccontr)
    assume "\<not> j < m"
    with hi [of j] that show False by simp
  qed
  text \<open>A candidate below the bound is marked reused; one at or above it is not.\<close>
  have old_marked: "mReuse s"
    if "j < m" "arr ! j = Ptr (Some a)" "deref (heap w1) (Some a) = Some s" "a < L0" for j a s
    using cd [OF that(1)] that(2,3,4) L0 unfolding cand_def by (auto split: if_splits)
  have new_unmarked: "\<not> mReuse s \<and> \<not> signals_reuse (descs w0 ! (ds ! j))"
    if "j < m" "arr ! j = Ptr (Some a)" "deref (heap w1) (Some a) = Some s" "L0 \<le> a" for j a s
    using cd [OF that(1)] that(2,3,4) unfolding cand_def by (auto split: if_splits)
  have slots: "\<forall>j. 0 \<le> j \<and> j < 0 + n \<longrightarrow>
           arr ! j = Ptr None
           \<or> (\<exists>a s. arr ! j = Ptr (Some a) \<and> deref (heap w1) (Some a) = Some s)"
  proof (intro allI impI)
    fix j assume j: "0 \<le> j \<and> j < 0 + n"
    show "arr ! j = Ptr None
           \<or> (\<exists>a s. arr ! j = Ptr (Some a) \<and> deref (heap w1) (Some a) = Some s)"
    proof (cases "j < m")
      case True
      from cd [OF True] show ?thesis unfolding cand_def by blast
    next
      case False
      with hi [of j] j show ?thesis by simp
    qed
  qed
  have dup: "\<forall>j j' a s. 0 \<le> j \<and> j < j' \<and> j' < 0 + n \<and> arr ! j = Ptr (Some a)
           \<and> arr ! j' = Ptr (Some a) \<and> deref (heap w1) (Some a) = Some s \<longrightarrow> mReuse s"
  proof (intro allI impI)
    fix j j' a s
    assume h: "0 \<le> j \<and> j < j' \<and> j' < 0 + n \<and> arr ! j = Ptr (Some a)
           \<and> arr ! j' = Ptr (Some a) \<and> deref (heap w1) (Some a) = Some s"
    then have jm: "j < m" and j'm: "j' < m" using below [of j a] below [of j' a] by simp_all
    show "mReuse s"
    proof (cases "a < L0")
      case True
      with old_marked [OF jm] h show ?thesis by simp
    next
      case False
      then have "L0 \<le> a" by simp
      with new_unmarked [OF jm] new_unmarked [OF j'm] h
      have "\<not> signals_reuse (descs w0 ! (ds ! j))" "\<not> signals_reuse (descs w0 ! (ds ! j'))"
        by simp_all
      with incr [of j j' a a] h jm j'm lo [OF jm] lo [OF j'm] have "a < a" by simp
      then show ?thesis by simp
    qed
  qed
  have rng: "0 + n \<le> length arr" using len by simp
  from destroyLoop_destroyed [OF rng slots dup] obtain h2 where
    run: "destroyLoop (Some arr) 0 n (heap w1) = Some h2"
    and dd: "destroyed arr 0 n (heap w1) h2"
    by blast
  note l2 = destroyedD(1) [OF dd] and only = destroyedD(2) [OF dd]
    and all = destroyedD(3) [OF dd]
  have hl: "length (heap w0) \<le> length (heap w1)" using fr by (simp add: fill_frame_def)
  have old: "\<forall>a<L0. h2 ! a = heap w1 ! a"
  proof (intro allI impI)
    fix a assume a: "a < L0"
    then have a1: "a < length (heap w1)" using hl L0 by simp
    from only [OF a1] show "h2 ! a = heap w1 ! a"
    proof
      assume "h2 ! a = None \<and> (\<exists>j s. 0 \<le> j \<and> j < 0 + n \<and> arr ! j = Ptr (Some a)
                                          \<and> heap w1 ! a = Some s \<and> \<not> mReuse s)"
      then obtain j s where j: "j < n" "arr ! j = Ptr (Some a)" "heap w1 ! a = Some s"
        "\<not> mReuse s" by auto
      from j(3) a1 have "deref (heap w1) (Some a) = Some s" by (simp add: deref_def)
      with old_marked [OF below [OF j(1,2)] j(2) _ a] j(4) show ?thesis by simp
    qed simp
  qed
  have new: "\<forall>a. L0 \<le> a \<and> a < length (heap w1) \<longrightarrow> h2 ! a = None"
  proof (intro allI impI)
    fix a assume a: "L0 \<le> a \<and> a < length (heap w1)"
    with news [of a] L0 obtain j where j: "j < m" "arr1 ! j = Ptr (Some a)" by auto
    then have aj: "arr ! j = Ptr (Some a)" using lo by simp
    from cd [OF j(1)] aj obtain s where s: "deref (heap w1) (Some a) = Some s"
      unfolding cand_def by auto
    from new_unmarked [OF j(1) aj s] a have "\<not> mReuse s" by simp
    with all [of j a s] j(1) mn aj s show "h2 ! a = None" by simp
  qed
  have "destroyStreams (Some arr) (int n) (heap w1) = Some h2"
    using run by (simp add: destroyStreams_def)
  with l2 old new show ?thesis by blast
qed

lemma filter_len_cong:
  assumes "length xs = length ys" and "\<forall>j<length xs. P (xs ! j) = Q (ys ! j)"
  shows "length (filter P xs) = length (filter Q ys)"
  using assms
proof (induction xs ys rule: list_induct2)
  case Nil
  then show ?case by simp
next
  case (Cons x xs y ys)
  have "\<forall>j<length xs. P (xs ! j) = Q (ys ! j)"
  proof (intro allI impI)
    fix j assume "j < length xs"
    then have "Suc j < length (x # xs)" by simp
    with Cons.prems have "P ((x # xs) ! Suc j) = Q ((y # ys) ! Suc j)" by blast
    then show "P (xs ! j) = Q (ys ! j)" by simp
  qed
  with Cons.IH have "length (filter P xs) = length (filter Q ys)" by simp
  moreover from Cons.prems have "P ((x # xs) ! 0) = Q ((y # ys) ! 0)" by blast
  ultimately show ?case by simp
qed

lemma cand_stream:
  assumes "cand L0 w0 w1 d x"
  shows "\<exists>s. stream_of (heap w1) x = Some s \<and> mType s = stream_type (descs w0 ! d)"
  using assms unfolding cand_def by (auto simp add: stream_of_def isValidReuseStream_def)

lemma filled_valid:
  assumes fl: "filled L0 ds 0 n w0 arr0 w1 arr1" and la: "length arr0 = n"
    and ld: "length ds = n"
  shows "isValidStreamSet (Some arr1) (int n) w1
           = Some (n \<noteq> 0 \<and> desc_inputs w0 ds \<le> 1 \<and> 1 \<le> desc_outputs w0 ds, w1)"
proof -
  note la1 = filledD(2) [OF fl] and cands = filledD(4) [OF fl]
  have l1: "length arr1 = n" using la la1 by simp
  have st: "\<exists>s. stream_of (heap w1) (arr1 ! j) = Some s
              \<and> mType s = stream_type (descs w0 ! (ds ! j))" if "j < n" for j
    using cand_stream [OF cands [of j]] that by simp
  have live: "live_slots (heap w1) arr1"
    unfolding live_slots_def list_all_length using st l1 by auto
  have ins: "input_count (heap w1) arr1 = desc_inputs w0 ds"
    unfolding input_count_def desc_inputs_def
  proof (rule filter_len_cong)
    show "length arr1 = length ds" using l1 ld by simp
    show "\<forall>j<length arr1.
            (case stream_of (heap w1) (arr1 ! j) of None \<Rightarrow> False
             | Some s \<Rightarrow> includes_input (mType s))
            = includes_input (stream_type (descs w0 ! (ds ! j)))"
    proof (intro allI impI)
      fix j assume "j < length arr1"
      with st [of j] l1 obtain s where "stream_of (heap w1) (arr1 ! j) = Some s"
        "mType s = stream_type (descs w0 ! (ds ! j))" by auto
      then show "(case stream_of (heap w1) (arr1 ! j) of None \<Rightarrow> False
             | Some s \<Rightarrow> includes_input (mType s))
            = includes_input (stream_type (descs w0 ! (ds ! j)))" by simp
    qed
  qed
  have outs: "output_count (heap w1) arr1 = desc_outputs w0 ds"
    unfolding output_count_def desc_outputs_def
  proof (rule filter_len_cong)
    show "length arr1 = length ds" using l1 ld by simp
    show "\<forall>j<length arr1.
            (case stream_of (heap w1) (arr1 ! j) of None \<Rightarrow> False
             | Some s \<Rightarrow> includes_output (mType s))
            = includes_output (stream_type (descs w0 ! (ds ! j)))"
    proof (intro allI impI)
      fix j assume "j < length arr1"
      with st [of j] l1 obtain s where "stream_of (heap w1) (arr1 ! j) = Some s"
        "mType s = stream_type (descs w0 ! (ds ! j))" by auto
      then show "(case stream_of (heap w1) (arr1 ! j) of None \<Rightarrow> False
             | Some s \<Rightarrow> includes_output (mType s))
            = includes_output (stream_type (descs w0 ! (ds ! j)))" by simp
    qed
  qed
  have "countLoop (Some arr1) 0 n (heap w1) 0 0
          = Some (int (input_count (heap w1) arr1), int (output_count (heap w1) arr1))"
    using countLoop_tally [OF live, of 0 n 0 0] l1 by simp
  then show ?thesis
    unfolding isValidStreamSet_def ins outs by auto
qed

lemma abort_post:
  assumes f: "flag_eq (heap w) h0" and l0: "length h0 = length (heap w)"
    and fl: "filled (length (heap w)) ds 0 m (w\<lparr>heap := h0\<rparr>) arr0 w1 arr1"
    and l2: "length h2 = length (heap w1)"
    and old: "\<forall>a<length (heap w). h2 ! a = heap w1 ! a"
    and new: "\<forall>a. length (heap w) \<le> a \<and> a < length (heap w1) \<longrightarrow> h2 ! a = None"
    and din: "\<forall>j<m. ds ! j < length (descs w)"
  shows "rolled_back w ds m (w1\<lparr>heap := h2\<rparr>)"
proof -
  note fr = filledD(1) [OF fl] and cands = filledD(4) [OF fl]
  from fr have cam1: "cam w1 = cam w" and hl: "length (heap w) \<le> length (heap w1)"
    and dl: "length (descs w1) = length (descs w)"
    and dfr: "\<And>d. d < length (descs w) \<Longrightarrow> descs w1 ! d = descs w ! d
            \<or> (\<not> signals_reuse (descs w ! d)
                \<and> (\<exists>a. length (heap w) \<le> a \<and> a < length (heap w1)
                      \<and> descs w1 ! d = (descs w ! d)\<lparr>priv := Some a\<rparr>))"
    using l0 unfolding fill_frame_def by simp_all
  have "flag_eq h0 (heap w1)" using fill_frame_flag_eq [OF fr] by simp
  with f have f1: "flag_eq (heap w) (heap w1)" by (rule flag_eq_trans)
  have f2: "flag_eq (heap w) h2"
    unfolding flag_eq_def
  proof (intro conjI allI impI)
    show "length (heap w) \<le> length h2" using hl l2 by simp
  next
    fix a assume a: "a < length (heap w)"
    with f1 have "map_option unflag (heap w1 ! a) = map_option unflag (heap w ! a)"
      by (simp add: flag_eq_def)
    with old a show "map_option unflag (h2 ! a) = map_option unflag (heap w ! a)" by simp
  qed
  have proc: "if signals_reuse (descs w ! (ds ! j))
                 then descs w1 ! (ds ! j) = descs w ! (ds ! j)
                      \<and> (\<exists>s. deref (heap w) (priv (descs w ! (ds ! j))) = Some s
                             \<and> deref h2 (priv (descs w ! (ds ! j)))
                                 = Some (s\<lparr>mReuse := True\<rparr>))
                 else (\<exists>a. priv (descs w1 ! (ds ! j)) = Some a \<and> length (heap w) \<le> a
                         \<and> a < length h2 \<and> h2 ! a = None)"
    if j: "j < m" for j
  proof -
    from cands [of j] j have c: "cand (length (heap w)) (w\<lparr>heap := h0\<rparr>) w1 (ds ! j) (arr1 ! j)"
      by simp
    show ?thesis
    proof (cases "signals_reuse (descs w ! (ds ! j))")
      case True
      with c obtain a s1 where p: "priv (descs w ! (ds ! j)) = Some a"
        and a: "a < length (heap w)" and s1: "deref (heap w1) (Some a) = Some s1"
        and r: "mReuse s1" and b: "mStream s1 < length (descs w)"
        unfolding cand_def by auto
      from f1 a have "map_option unflag (heap w1 ! a) = map_option unflag (heap w ! a)"
        by (simp add: flag_eq_def)
      with derefD [OF s1] obtain s where hs: "heap w ! a = Some s" and u: "unflag s1 = unflag s"
        by (cases "heap w ! a") auto
      from hs a have s: "deref (heap w) (Some a) = Some s" by (simp add: deref_def)
      from unflag_eqD(1) [OF u] r have e: "s1 = s\<lparr>mReuse := True\<rparr>" by simp
      have "deref h2 (Some a) = Some s1"
        using old a derefD [OF s1] l2 by (simp add: deref_def)
      moreover have "descs w1 ! (ds ! j) = descs w ! (ds ! j)"
        using dfr [of "ds ! j"] din j True by auto
      ultimately show ?thesis using True p s e by auto
    next
      case False
      with c obtain a' where "priv (descs w1 ! (ds ! j)) = Some a'"
        "length (heap w) \<le> a'" "a' < length (heap w1)"
        unfolding cand_def using l0 by auto
      with new l2 False show ?thesis by auto
    qed
  qed
  show ?thesis
    unfolding rolled_back_def
  proof (intro conjI allI impI)
    show "cam (w1\<lparr>heap := h2\<rparr>) = cam w" using cam1 by simp
    show "flag_eq (heap w) (heap (w1\<lparr>heap := h2\<rparr>))" using f2 by simp
    show "length (descs (w1\<lparr>heap := h2\<rparr>)) = length (descs w)" using dl by simp
  next
    fix a assume "length (heap w) \<le> a \<and> a < length (heap (w1\<lparr>heap := h2\<rparr>))"
    with new l2 show "heap (w1\<lparr>heap := h2\<rparr>) ! a = None" by simp
  next
    fix d assume "d < length (descs w)"
    from dfr [OF this] show "descs (w1\<lparr>heap := h2\<rparr>) ! d = descs w ! d
            \<or> (\<not> signals_reuse (descs w ! d)
                \<and> (\<exists>a. length (heap w) \<le> a \<and> a < length (heap (w1\<lparr>heap := h2\<rparr>))
                      \<and> descs (w1\<lparr>heap := h2\<rparr>) ! d = (descs w ! d)\<lparr>priv := Some a\<rparr>))"
      using l2 by simp
  next
    fix j assume "j < m"
    from proc [OF this] show "if signals_reuse (descs w ! (ds ! j))
                 then descs (w1\<lparr>heap := h2\<rparr>) ! (ds ! j) = descs w ! (ds ! j)
                      \<and> (\<exists>s. deref (heap w) (priv (descs w ! (ds ! j))) = Some s
                             \<and> deref (heap (w1\<lparr>heap := h2\<rparr>)) (priv (descs w ! (ds ! j)))
                                 = Some (s\<lparr>mReuse := True\<rparr>))
                 else (\<exists>a. priv (descs (w1\<lparr>heap := h2\<rparr>) ! (ds ! j)) = Some a
                         \<and> length (heap w) \<le> a
                         \<and> a < length (heap (w1\<lparr>heap := h2\<rparr>))
                         \<and> heap (w1\<lparr>heap := h2\<rparr>) ! a = None)"
      by simp
  qed
qed

lemma call_okD:
  assumes "call_ok w sc"
  shows "committed_ok w" and "unat (num_streams sc) = length (streams sc)"
    and "length (streams sc) < 2147483648"
    and "sint (num_streams sc) = int (length (streams sc))"
proof -
  from assms show "committed_ok w" and u: "unat (num_streams sc) = length (streams sc)"
    and l: "length (streams sc) < 2147483648"
    by (simp_all add: call_ok_def)
  from sint_small [of "num_streams sc"] u l
  show "sint (num_streams sc) = int (length (streams sc))" by simp
qed

lemma configure_abort:
  assumes c: "call_ok w sc" and ne: "streams sc \<noteq> []"
    and ok: "\<forall>j<m. desc_ok w (streams sc ! j)"
    and how: "m = length (streams sc)
                \<and> \<not> (desc_inputs w (streams sc) \<le> 1 \<and> 1 \<le> desc_outputs w (streams sc))
              \<or> Suc m = length (streams sc) \<and> mismatch w (streams sc ! m)"
  shows "\<exists>w'. configureStreams w (Some sc) = Some (- EINVAL, w')
           \<and> rolled_back w (streams sc) m w'"
proof -
  define ds where "ds = streams sc"
  define n where "n = length ds"
  note cd = call_okD [OF c]
  have un: "unat (num_streams sc) = n" and sn: "sint (num_streams sc) = int n"
    using cd by (simp_all add: n_def ds_def)
  have n0: "num_streams sc \<noteq> 0"
  proof
    assume "num_streams sc = 0"
    then have "unat (num_streams sc) = 0" by simp
    with un ne show False by (simp add: n_def ds_def)
  qed
  have mn: "m \<le> length (streams sc)" using how by auto
  from fill_run [OF c mn ok] obtain h0 w1 arr1 where
    mu: "markUnused (mStreams (cam w)) 0 (nat (mNumStreams (cam w))) (heap w) = Some h0"
    and f: "flag_eq (heap w) h0" and l0: "length h0 = length (heap w)"
    and sp: "\<And>k'. fillStreams ds 0 (m + k') (w\<lparr>heap := h0\<rparr>) (replicate n Uninit)
                     = fillStreams ds m k' w1 arr1"
    and fl: "filled (length (heap w)) ds 0 m (w\<lparr>heap := h0\<rparr>) (replicate n Uninit) w1 arr1"
    unfolding ds_def [symmetric] n_def [symmetric] by blast
  note fr = filledD(1) [OF fl]
  have din: "\<forall>j<m. ds ! j < length (descs w)"
    using ok by (simp add: desc_ok_def ds_def)
  text \<open>The array that reaches \<^verbatim>\<open>err_out\<close>, and how the fill loop and the validator end.\<close>
  define arr where "arr = (if m = n then arr1 else arr1[m := Ptr None])"
  have shape: "arr = arr1 \<and> m = n \<or> arr = arr1[m := Ptr None] \<and> Suc m = n"
    using how by (auto simp add: arr_def n_def ds_def)
  have L0: "length (heap w) = length (heap (w\<lparr>heap := h0\<rparr>))" using l0 by simp
  from abort_destroy [OF fl L0 _ shape] obtain h2 where
    de: "destroyStreams (Some arr) (int n) (heap w1) = Some h2"
    and l2: "length h2 = length (heap w1)"
    and old: "\<forall>a<length (heap w). h2 ! a = heap w1 ! a"
    and new: "\<forall>a. length (heap w) \<le> a \<and> a < length (heap w1) \<longrightarrow> h2 ! a = None"
    by auto
  have rb: "rolled_back w ds m (w1\<lparr>heap := h2\<rparr>)"
    by (rule abort_post [OF f l0 fl l2 old new din])
  have eo: "err_out arr (num_streams sc) w1 = Some (- EINVAL, w1\<lparr>heap := h2\<rparr>)"
    using de by (simp add: err_out_def sn)
  have "configureStreams w (Some sc) = Some (- EINVAL, w1\<lparr>heap := h2\<rparr>)"
  proof (cases "m = n")
    case True
    have fi: "fillStreams ds 0 n (w\<lparr>heap := h0\<rparr>) (replicate n Uninit) = Some (True, w1, arr1)"
      using sp [of 0] True by simp
    have "desc_inputs (w\<lparr>heap := h0\<rparr>) ds = desc_inputs w ds"
      "desc_outputs (w\<lparr>heap := h0\<rparr>) ds = desc_outputs w ds"
      by (simp_all add: desc_inputs_def desc_outputs_def)
    moreover have "isValidStreamSet (Some arr1) (int n) w1
           = Some (n \<noteq> 0 \<and> desc_inputs (w\<lparr>heap := h0\<rparr>) ds \<le> 1
                   \<and> 1 \<le> desc_outputs (w\<lparr>heap := h0\<rparr>) ds, w1)"
      by (rule filled_valid [OF fl [unfolded True]]) (simp_all add: n_def)
    ultimately have va: "isValidStreamSet (Some arr1) (int n) w1 = Some (False, w1)"
      using how True by (auto simp add: n_def ds_def)
    show ?thesis
      unfolding configureStreams_def
      using n0 mu fi va eo True
      by (simp add: Let_def un sn ds_def [symmetric] arr_def)
  next
    case False
    with how have m: "Suc m = n" and mm: "mismatch w (ds ! m)"
      by (auto simp add: n_def ds_def)
    from mismatch_flag_eq [OF mm f] have "mismatch (w\<lparr>heap := h0\<rparr>) (ds ! m)" .
    then have m1: "mismatch w1 (ds ! m)" by (rule mismatch_frame [OF fr])
    have ml: "m < length ds" using m by (simp add: n_def)
    have "fillStreams ds 0 n (w\<lparr>heap := h0\<rparr>) (replicate n Uninit)
            = fillStreams ds m (Suc 0) w1 arr1"
      using sp [of "Suc 0"] m by simp
    also have "\<dots> = Some (False, w1, arr1[m := Ptr None])"
      by (rule fill_step_mismatch [OF ml m1])
    finally have fi: "fillStreams ds 0 n (w\<lparr>heap := h0\<rparr>) (replicate n Uninit)
            = Some (False, w1, arr)"
      using False by (simp add: arr_def)
    show ?thesis
      unfolding configureStreams_def
      using n0 mu fi eo
      by (simp add: Let_def un sn ds_def [symmetric])
  qed
  with rb show ?thesis by (simp add: ds_def)
qed

lemma reuse_differs_mismatch: "reuse_differs w d \<Longrightarrow> mismatch w d"
  by (auto simp add: reuse_differs_def mismatch_def isValidReuseStream_def split: option.splits)

lemma destroyLoop_uninit:
  assumes "i \<le> j" and "j < i + k" and "slot_at (Some xs) j = None"
  shows "destroyLoop (Some xs) i k h = None"
  using assms
proof (induction k arbitrary: i h)
  case 0
  then show ?case by simp
next
  case (Suc k)
  show ?case
  proof (cases "j = i")
    case True
    with Suc.prems(3) show ?thesis by simp
  next
    case False
    with Suc.prems have "Suc i \<le> j" "j < Suc i + k" by simp_all
    then have "destroyLoop (Some xs) (Suc i) k h' = None" for h'
      using Suc.IH Suc.prems(3) by blast
    then show ?thesis by (simp split: option.splits)
  qed
qed

lemma configure_mismatch_early:
  assumes c: "call_ok w sc"
    and ok: "\<forall>j<m. desc_ok w (streams sc ! j)"
    and mm: "mismatch w (streams sc ! m)" and early: "Suc m < length (streams sc)"
  shows "configureStreams w (Some sc) = None"
proof -
  define ds where "ds = streams sc"
  define n where "n = length ds"
  note cd = call_okD [OF c]
  have un: "unat (num_streams sc) = n" and sn: "sint (num_streams sc) = int n"
    using cd by (simp_all add: n_def ds_def)
  have n0: "num_streams sc \<noteq> 0"
  proof
    assume "num_streams sc = 0"
    then have "unat (num_streams sc) = 0" by simp
    with un early show False by (simp add: n_def ds_def)
  qed
  have mn: "m \<le> length (streams sc)" using early by simp
  from fill_run [OF c mn ok] obtain h0 w1 arr1 where
    mu: "markUnused (mStreams (cam w)) 0 (nat (mNumStreams (cam w))) (heap w) = Some h0"
    and f: "flag_eq (heap w) h0"
    and sp: "\<And>k'. fillStreams ds 0 (m + k') (w\<lparr>heap := h0\<rparr>) (replicate n Uninit)
                     = fillStreams ds m k' w1 arr1"
    and fl: "filled (length (heap w)) ds 0 m (w\<lparr>heap := h0\<rparr>) (replicate n Uninit) w1 arr1"
    unfolding ds_def [symmetric] n_def [symmetric] by blast
  note fr = filledD(1) [OF fl] and la1 = filledD(2) [OF fl] and keep = filledD(3) [OF fl]
  from mismatch_flag_eq [OF mm f] have "mismatch (w\<lparr>heap := h0\<rparr>) (ds ! m)"
    by (simp add: ds_def)
  then have m1: "mismatch w1 (ds ! m)" by (rule mismatch_frame [OF fr])
  have ml: "m < length ds" and sm: "Suc m < n" using early by (simp_all add: n_def ds_def)
  define k where "k = n - Suc m"
  have k: "n = m + Suc k" using sm by (simp add: k_def)
  define arr where "arr = arr1[m := Ptr None]"
  have "fillStreams ds 0 n (w\<lparr>heap := h0\<rparr>) (replicate n Uninit)
          = fillStreams ds m (Suc k) w1 arr1"
    using sp [of "Suc k"] k by simp
  also have "\<dots> = Some (False, w1, arr)"
    unfolding arr_def by (rule fill_step_mismatch [OF ml m1])
  finally have fi: "fillStreams ds 0 n (w\<lparr>heap := h0\<rparr>) (replicate n Uninit)
          = Some (False, w1, arr)" .
  have "arr1 ! Suc m = replicate n Uninit ! Suc m"
    using keep [of "Suc m"] sm by simp
  then have "arr ! Suc m = Uninit" using sm by (simp add: arr_def)
  moreover have "length arr = n" using la1 by (simp add: arr_def)
  ultimately have "slot_at (Some arr) (Suc m) = None" using sm by (simp add: slot_at_def)
  then have "destroyLoop (Some arr) 0 n h = None" for h
    using destroyLoop_uninit [of 0 "Suc m" n arr] sm by simp
  then have eo: "err_out arr (num_streams sc) w1 = None"
    by (simp add: err_out_def destroyStreams_def sn)
  show ?thesis
    unfolding configureStreams_def
    using n0 mu fi eo
    by (simp add: Let_def un sn ds_def [symmetric])
qed

lemma configure_valid_result:
  assumes c: "call_ok w sc"
    and ok: "\<forall>j<length (streams sc). desc_ok w (streams sc ! j)"
    and v: "desc_inputs w (streams sc) \<le> 1" "1 \<le> desc_outputs w (streams sc)"
    and r: "configureStreams w (Some sc) = Some (r, w')"
  shows "r = 0"
proof -
  define ds where "ds = streams sc"
  define n where "n = length ds"
  note cd = call_okD [OF c]
  have un: "unat (num_streams sc) = n" and sn: "sint (num_streams sc) = int n"
    using cd by (simp_all add: n_def ds_def)
  have ne: "n \<noteq> 0" using v(2) by (auto simp add: n_def ds_def desc_outputs_def)
  have n0: "num_streams sc \<noteq> 0"
  proof
    assume "num_streams sc = 0"
    then have "unat (num_streams sc) = 0" by simp
    with un ne show False by simp
  qed
  from fill_run [OF c order_refl ok] obtain h0 w1 arr1 where
    mu: "markUnused (mStreams (cam w)) 0 (nat (mNumStreams (cam w))) (heap w) = Some h0"
    and sp: "\<And>k'. fillStreams ds 0 (n + k') (w\<lparr>heap := h0\<rparr>) (replicate n Uninit)
                     = fillStreams ds n k' w1 arr1"
    and fl: "filled (length (heap w)) ds 0 n (w\<lparr>heap := h0\<rparr>) (replicate n Uninit) w1 arr1"
    unfolding ds_def [symmetric] n_def [symmetric] by blast
  have fi: "fillStreams ds 0 n (w\<lparr>heap := h0\<rparr>) (replicate n Uninit) = Some (True, w1, arr1)"
    using sp [of 0] by simp
  have "desc_inputs (w\<lparr>heap := h0\<rparr>) ds = desc_inputs w ds"
    "desc_outputs (w\<lparr>heap := h0\<rparr>) ds = desc_outputs w ds"
    by (simp_all add: desc_inputs_def desc_outputs_def)
  moreover have "isValidStreamSet (Some arr1) (int n) w1
           = Some (n \<noteq> 0 \<and> desc_inputs (w\<lparr>heap := h0\<rparr>) ds \<le> 1
                   \<and> 1 \<le> desc_outputs (w\<lparr>heap := h0\<rparr>) ds, w1)"
    by (rule filled_valid [OF fl]) (simp_all add: n_def)
  ultimately have va: "isValidStreamSet (Some arr1) (int n) w1 = Some (True, w1)"
    using v ne by (simp add: ds_def)
  have "configureStreams w (Some sc) =
          (case setupStreams (Some arr1) (int n) w1 of
             None \<Rightarrow> None
           | Some w3 \<Rightarrow>
               (case destroyStreams (mStreams (cam w3)) (mNumStreams (cam w3)) (heap w3) of
                  None \<Rightarrow> None
                | Some h4 \<Rightarrow>
                    Some (0, w3\<lparr>heap := h4,
                              cam := (cam w3)\<lparr>mStreams := Some arr1,
                                mNumStreams := sint (num_streams sc)\<rparr>\<rparr>)))"
    unfolding configureStreams_def
    using n0 mu fi va
    by (simp add: Let_def un sn ds_def [symmetric])
  with r show ?thesis
    by (cases "setupStreams (Some arr1) (int n) w1")
       (auto split: option.splits)
qed

lemma rolled_backD:
  assumes "rolled_back w ds m w'"
  shows "cam w' = cam w" and "flag_eq (heap w) (heap w')"
    and "\<And>a. length (heap w) \<le> a \<Longrightarrow> deref (heap w') (Some a) = None"
    and "\<And>j. j < m \<Longrightarrow> if signals_reuse (descs w ! (ds ! j))
                 then descs w' ! (ds ! j) = descs w ! (ds ! j)
                      \<and> (\<exists>s. deref (heap w) (priv (descs w ! (ds ! j))) = Some s
                             \<and> deref (heap w') (priv (descs w ! (ds ! j)))
                                 = Some (s\<lparr>mReuse := True\<rparr>))
                 else (\<exists>a. priv (descs w' ! (ds ! j)) = Some a \<and> length (heap w) \<le> a
                         \<and> a < length (heap w') \<and> heap w' ! a = None)"
proof -
  from assms show "cam w' = cam w" and "flag_eq (heap w) (heap w')"
    unfolding rolled_back_def by blast+
  from assms have n: "\<forall>a. length (heap w) \<le> a \<and> a < length (heap w') \<longrightarrow> heap w' ! a = None"
    unfolding rolled_back_def by blast
  show "deref (heap w') (Some a) = None" if "length (heap w) \<le> a" for a
    using n that by (simp add: deref_def)
  from assms have "\<forall>j<m. if signals_reuse (descs w ! (ds ! j))
                 then descs w' ! (ds ! j) = descs w ! (ds ! j)
                      \<and> (\<exists>s. deref (heap w) (priv (descs w ! (ds ! j))) = Some s
                             \<and> deref (heap w') (priv (descs w ! (ds ! j)))
                                 = Some (s\<lparr>mReuse := True\<rparr>))
                 else (\<exists>a. priv (descs w' ! (ds ! j)) = Some a \<and> length (heap w) \<le> a
                         \<and> a < length (heap w') \<and> heap w' ! a = None)"
    unfolding rolled_back_def by blast
  then show "if signals_reuse (descs w ! (ds ! j))
                 then descs w' ! (ds ! j) = descs w ! (ds ! j)
                      \<and> (\<exists>s. deref (heap w) (priv (descs w ! (ds ! j))) = Some s
                             \<and> deref (heap w') (priv (descs w ! (ds ! j)))
                                 = Some (s\<lparr>mReuse := True\<rparr>))
                 else (\<exists>a. priv (descs w' ! (ds ! j)) = Some a \<and> length (heap w) \<le> a
                         \<and> a < length (heap w') \<and> heap w' ! a = None)" if "j < m" for j
    using that by blast
qed

lemma empty_config:
  assumes "call_ok w sc" and "streams sc = []"
  shows "configureStreams w (Some sc) = Some (- EINVAL, w)"
proof -
  from call_okD(2) [OF assms(1)] assms(2) have "unat (num_streams sc) = 0" by simp
  then have "num_streams sc = 0" by (simp add: unat_eq_0)
  then show ?thesis by (simp add: configureStreams_def)
qed

section \<open>Aborted transactions\<close>

text \<open>
  C2. On a well-formed device, for every configuration whose descriptors are acceptable
  (so that the candidate set is built in full, each candidate of the type its descriptor
  names) and name no output-capable type or two or more input-capable ones,
  \<^verbatim>\<open>configureStreams\<close> returns \<^verbatim>\<open>-EINVAL\<close>; \<^verbatim>\<open>mStreams\<close> and \<^verbatim>\<open>mNumStreams\<close> are the ones before
  the call; every Stream that existed before the call is still there, equal to itself up
  to the reuse marker; every Stream the call created is freed; and the Stream a reuse
  descriptor carries is the one before the call with its reuse marker set.
\<close>

theorem configureStreams_invalid_set:
  assumes "call_ok w sc" and "list_all (desc_ok w) (streams sc)"
    and "desc_outputs w (streams sc) = 0 \<or> 2 \<le> desc_inputs w (streams sc)"
  shows "\<exists>w'. configureStreams w (Some sc) = Some (- EINVAL, w')
           \<and> mStreams (cam w') = mStreams (cam w) \<and> mNumStreams (cam w') = mNumStreams (cam w)
           \<and> flag_eq (heap w) (heap w')
           \<and> (\<forall>a. length (heap w) \<le> a \<longrightarrow> deref (heap w') (Some a) = None)
           \<and> list_all (\<lambda>d. signals_reuse (descs w ! d) \<longrightarrow>
                    (\<exists>s. deref (heap w) (priv (descs w ! d)) = Some s
                       \<and> deref (heap w') (priv (descs w ! d)) = Some (s\<lparr>mReuse := True\<rparr>)))
                 (streams sc)"
proof (cases "streams sc = []")
  case True
  have "\<forall>a. length (heap w) \<le> a \<longrightarrow> deref (heap w) (Some a) = None"
    by (simp add: deref_def)
  with empty_config [OF assms(1) True] True show ?thesis
    by (simp add: flag_eq_refl)
next
  case False
  have ok: "\<forall>j<length (streams sc). desc_ok w (streams sc ! j)"
    using assms(2) by (simp add: list_all_length)
  have how: "length (streams sc) = length (streams sc)
                \<and> \<not> (desc_inputs w (streams sc) \<le> 1 \<and> 1 \<le> desc_outputs w (streams sc))
              \<or> Suc (length (streams sc)) = length (streams sc)
                \<and> mismatch w (streams sc ! length (streams sc))"
    using assms(3) by auto
  from configure_abort [OF assms(1) False ok how] obtain w' where
    run: "configureStreams w (Some sc) = Some (- EINVAL, w')"
    and rb: "rolled_back w (streams sc) (length (streams sc)) w'" by blast
  note d = rolled_backD [OF rb]
  have "list_all (\<lambda>d. signals_reuse (descs w ! d) \<longrightarrow>
                    (\<exists>s. deref (heap w) (priv (descs w ! d)) = Some s
                       \<and> deref (heap w') (priv (descs w ! d)) = Some (s\<lparr>mReuse := True\<rparr>)))
                 (streams sc)"
    unfolding list_all_length
  proof (intro allI impI)
    fix j assume "j < length (streams sc)" "signals_reuse (descs w ! (streams sc ! j))"
    with d(4) [of j] show "\<exists>s. deref (heap w) (priv (descs w ! (streams sc ! j))) = Some s
                       \<and> deref (heap w') (priv (descs w ! (streams sc ! j)))
                           = Some (s\<lparr>mReuse := True\<rparr>)" by simp
  qed
  with run d(1,2,3) show ?thesis by auto
qed

theorem configureStreams_invalid_set_witness:
  "call_ok fresh_device inputs_only \<and> list_all (desc_ok fresh_device) (streams inputs_only)
   \<and> desc_outputs fresh_device (streams inputs_only) = 0
   \<and> (\<exists>w'. configureStreams fresh_device (Some inputs_only) = Some (- EINVAL, w')
          \<and> mStreams (cam w') = None \<and> mNumStreams (cam w') = 0
          \<and> deref (heap w') (Some 0) = None)"
proof -
  have 1: "call_ok fresh_device inputs_only" by code_simp
  have 2: "list_all (desc_ok fresh_device) (streams inputs_only)" by code_simp
  have 3: "desc_outputs fresh_device (streams inputs_only) = 0" by code_simp
  have 4: "mStreams (cam fresh_device) = None" "mNumStreams (cam fresh_device) = 0"
    "length (heap fresh_device) = 0"
    by (simp_all add: fresh_device_def Camera_def)
  from configureStreams_invalid_set [OF 1 2 disjI1 [OF 3]] obtain w' where
    "configureStreams fresh_device (Some inputs_only) = Some (- EINVAL, w')"
    "mStreams (cam w') = mStreams (cam fresh_device)"
    "mNumStreams (cam w') = mNumStreams (cam fresh_device)"
    "\<forall>a. length (heap fresh_device) \<le> a \<longrightarrow> deref (heap w') (Some a) = None"
    by blast
  with 1 2 3 4 show ?thesis by auto
qed

text \<open>
  C3. The claim does not hold on the code when the mismatching descriptor is not the last
  of the list. On a well-formed device, let the descriptors before index \<open>m\<close> be acceptable,
  let descriptor \<open>m\<close> signal reuse of a live Stream whose owning device id or type differs
  from the descriptor's, and let more descriptors follow. The fill loop stops at \<open>m\<close>
  with the elements after \<open>m\<close> of the new array never written; \<^verbatim>\<open>err_out\<close> hands the array
  with the full count to \<^verbatim>\<open>destroyStreams\<close>, which reads them. The call has no defined
  result, where the claim has it return \<^verbatim>\<open>-EINVAL\<close> with the committed set kept.
\<close>

theorem configureStreams_mismatch_early_undefined:
  assumes "call_ok w sc" and "list_all (desc_ok w) (take m (streams sc))"
    and "reuse_differs w (streams sc ! m)" and "Suc m < length (streams sc)"
  shows "configureStreams w (Some sc) = None"
proof -
  have "\<forall>j<m. desc_ok w (streams sc ! j)"
    using assms(2,4) by (simp add: list_all_length)
  from configure_mismatch_early [OF assms(1) this reuse_differs_mismatch [OF assms(3)] assms(4)]
  show ?thesis .
qed

theorem configureStreams_mismatch_first_undefined:
  "call_ok mismatch_world early_mismatch_config
   \<and> list_all (desc_ok mismatch_world) (take 0 (streams early_mismatch_config))
   \<and> reuse_differs mismatch_world (streams early_mismatch_config ! 0)
   \<and> Suc 0 < length (streams early_mismatch_config)
   \<and> configureStreams mismatch_world (Some early_mismatch_config) = None"
proof -
  have 1: "call_ok mismatch_world early_mismatch_config" by code_simp
  have 2: "list_all (desc_ok mismatch_world) (take 0 (streams early_mismatch_config))"
    by simp
  have 3: "reuse_differs mismatch_world (streams early_mismatch_config ! 0)" by code_simp
  have 4: "Suc 0 < length (streams early_mismatch_config)" by code_simp
  from configureStreams_mismatch_early_undefined [OF 1 2 3 4] 1 2 3 4 show ?thesis by blast
qed

text \<open>
  When the mismatching descriptor is the last one, every element of the new array has
  been written and the abort is defined. On a well-formed device, for every configuration
  whose last descriptor signals reuse of a live Stream whose owning device id or type
  differs, the descriptors before it being acceptable, \<^verbatim>\<open>configureStreams\<close> returns
  \<^verbatim>\<open>-EINVAL\<close>; the device record, and with it the committed array and count, is the one
  before the call; every Stream that existed before the call is still there, equal to
  itself up to the reuse marker; every Stream the call created is freed.
\<close>

theorem configureStreams_mismatch_last:
  assumes "call_ok w sc" and "streams sc = ds @ [d]" and "list_all (desc_ok w) ds"
    and "reuse_differs w d"
  shows "\<exists>w'. configureStreams w (Some sc) = Some (- EINVAL, w')
           \<and> cam w' = cam w \<and> flag_eq (heap w) (heap w')
           \<and> (\<forall>a. length (heap w) \<le> a \<longrightarrow> deref (heap w') (Some a) = None)"
proof -
  have ne: "streams sc \<noteq> []" using assms(2) by simp
  have ok: "\<forall>j<length ds. desc_ok w (streams sc ! j)"
    using assms(2,3) by (simp add: list_all_length nth_append)
  have "mismatch w (streams sc ! length ds)"
    using assms(2) reuse_differs_mismatch [OF assms(4)] by simp
  then have how: "length ds = length (streams sc)
                \<and> \<not> (desc_inputs w (streams sc) \<le> 1 \<and> 1 \<le> desc_outputs w (streams sc))
              \<or> Suc (length ds) = length (streams sc)
                \<and> mismatch w (streams sc ! length ds)"
    using assms(2) by simp
  from configure_abort [OF assms(1) ne ok how] obtain w' where
    run: "configureStreams w (Some sc) = Some (- EINVAL, w')"
    and rb: "rolled_back w (streams sc) (length ds) w'" by blast
  note r = rolled_backD [OF rb]
  from run r(1,2,3) show ?thesis by auto
qed

theorem configureStreams_mismatch_last_witness:
  "call_ok mismatch_world mismatch_config \<and> streams mismatch_config = [0] @ [1]
   \<and> list_all (desc_ok mismatch_world) [0] \<and> reuse_differs mismatch_world 1
   \<and> (\<exists>w'. configureStreams mismatch_world (Some mismatch_config) = Some (- EINVAL, w')
          \<and> cam w' = cam mismatch_world \<and> deref (heap w') (Some 1) = None)"
proof -
  have 1: "call_ok mismatch_world mismatch_config" by code_simp
  have 2: "streams mismatch_config = [0] @ [1]" by code_simp
  have 3: "list_all (desc_ok mismatch_world) [0]" by code_simp
  have 4: "reuse_differs mismatch_world 1" by code_simp
  have 5: "length (heap mismatch_world) \<le> 1" by code_simp
  from configureStreams_mismatch_last [OF 1 2 3 4] 5 obtain w' where
    "configureStreams mismatch_world (Some mismatch_config) = Some (- EINVAL, w')"
    "cam w' = cam mismatch_world" "deref (heap w') (Some 1) = None"
    by blast
  with 1 2 3 4 show ?thesis by blast
qed

text \<open>
  The descriptors after a defined abort. On a well-formed device, let the first \<open>k\<close>
  descriptors of a configuration be acceptable and, if there is a descriptor \<open>k\<close>, let it
  be a mismatch. Whenever \<^verbatim>\<open>configureStreams\<close> returns an error, the device record is the one
  before the call, and of the \<open>k\<close> descriptors processed before the abort each one that
  signalled reuse is as it was (its tag was overwritten with the same handle) and each
  other one carries as tag the address of a Stream that the call created and freed: the
  tags are not restored. The call returns an error when the aggregate validation fails
  and when the mismatch is at the last index.
\<close>

theorem configureStreams_abort_leaves_tags:
  assumes "call_ok w sc" and "k \<le> length (streams sc)"
    and "list_all (desc_ok w) (take k (streams sc))"
    and "k < length (streams sc) \<longrightarrow> mismatch w (streams sc ! k)"
    and "configureStreams w (Some sc) = Some (r, w')" and "r \<noteq> 0"
  shows "cam w' = cam w
         \<and> (\<forall>j<k. if signals_reuse (descs w ! (streams sc ! j))
                   then descs w' ! (streams sc ! j) = descs w ! (streams sc ! j)
                   else (\<exists>a. priv (descs w' ! (streams sc ! j)) = Some a
                           \<and> length (heap w) \<le> a \<and> a < length (heap w')
                           \<and> deref (heap w') (Some a) = None))"
proof (cases "streams sc = []")
  case True
  with empty_config [OF assms(1) True] assms(2,5) show ?thesis by simp
next
  case False
  have ok: "\<forall>j<k. desc_ok w (streams sc ! j)"
    using assms(2,3) by (simp add: list_all_length)
  have "\<exists>w''. configureStreams w (Some sc) = Some (- EINVAL, w'')
           \<and> rolled_back w (streams sc) k w''"
  proof (cases "k = length (streams sc)")
    case True
    have "\<not> (desc_inputs w (streams sc) \<le> 1 \<and> 1 \<le> desc_outputs w (streams sc))"
    proof
      assume "desc_inputs w (streams sc) \<le> 1 \<and> 1 \<le> desc_outputs w (streams sc)"
      with configure_valid_result [OF assms(1) ok [unfolded True] _ _ assms(5)] assms(6)
      show False by simp
    qed
    with True have "k = length (streams sc)
                \<and> \<not> (desc_inputs w (streams sc) \<le> 1 \<and> 1 \<le> desc_outputs w (streams sc))
              \<or> Suc k = length (streams sc) \<and> mismatch w (streams sc ! k)" by simp
    from configure_abort [OF assms(1) False ok this] show ?thesis .
  next
    case False
    with assms(2,4) have kl: "k < length (streams sc)" and mm: "mismatch w (streams sc ! k)"
      by simp_all
    have "Suc k = length (streams sc)"
    proof (rule ccontr)
      assume "Suc k \<noteq> length (streams sc)"
      with kl have "Suc k < length (streams sc)" by simp
      from configure_mismatch_early [OF assms(1) ok mm this] assms(5) show False by simp
    qed
    with mm have "k = length (streams sc)
                \<and> \<not> (desc_inputs w (streams sc) \<le> 1 \<and> 1 \<le> desc_outputs w (streams sc))
              \<or> Suc k = length (streams sc) \<and> mismatch w (streams sc ! k)" by simp
    from configure_abort [OF assms(1) \<open>streams sc \<noteq> []\<close> ok this] show ?thesis .
  qed
  then obtain w'' where run: "configureStreams w (Some sc) = Some (- EINVAL, w'')"
    and rb: "rolled_back w (streams sc) k w''" by blast
  from run assms(5) have e: "w'' = w'" by simp
  note d = rolled_backD [OF rb [unfolded e]]
  have "if signals_reuse (descs w ! (streams sc ! j))
                   then descs w' ! (streams sc ! j) = descs w ! (streams sc ! j)
                   else (\<exists>a. priv (descs w' ! (streams sc ! j)) = Some a
                           \<and> length (heap w) \<le> a \<and> a < length (heap w')
                           \<and> deref (heap w') (Some a) = None)" if "j < k" for j
    using d(4) [OF that] d(3) by (auto split: if_splits)
  with d(1) show ?thesis by blast
qed

theorem configureStreams_abort_leaves_tags_witness:
  "call_ok mismatch_world mismatch_config \<and> 1 \<le> length (streams mismatch_config)
   \<and> list_all (desc_ok mismatch_world) (take 1 (streams mismatch_config))
   \<and> mismatch mismatch_world (streams mismatch_config ! 1)
   \<and> configureStreams mismatch_world (Some mismatch_config) = Some (- EINVAL, mismatch_result)
   \<and> cam mismatch_result = cam mismatch_world
   \<and> \<not> signals_reuse (descs mismatch_world ! (streams mismatch_config ! 0))
   \<and> (\<exists>a. priv (descs mismatch_result ! (streams mismatch_config ! 0)) = Some a
          \<and> length (heap mismatch_world) \<le> a \<and> deref (heap mismatch_result) (Some a) = None)"
proof -
  have 1: "call_ok mismatch_world mismatch_config" by code_simp
  have 2: "1 \<le> length (streams mismatch_config)" by code_simp
  have 3: "list_all (desc_ok mismatch_world) (take 1 (streams mismatch_config))" by code_simp
  have 4: "mismatch mismatch_world (streams mismatch_config ! 1)" by code_simp
  have 5: "configureStreams mismatch_world (Some mismatch_config) = Some (- EINVAL, mismatch_result)"
    by code_simp
  have 6: "- EINVAL \<noteq> 0" by (simp add: EINVAL_def)
  have 7: "\<not> signals_reuse (descs mismatch_world ! (streams mismatch_config ! 0))" by code_simp
  from configureStreams_abort_leaves_tags [OF 1 2 3 _ 5 6] 4
  have "cam mismatch_result = cam mismatch_world
         \<and> (\<forall>j<1. if signals_reuse (descs mismatch_world ! (streams mismatch_config ! j))
                   then descs mismatch_result ! (streams mismatch_config ! j)
                        = descs mismatch_world ! (streams mismatch_config ! j)
                   else (\<exists>a. priv (descs mismatch_result ! (streams mismatch_config ! j)) = Some a
                           \<and> length (heap mismatch_world) \<le> a \<and> a < length (heap mismatch_result)
                           \<and> deref (heap mismatch_result) (Some a) = None))"
    by blast
  with 7 have "cam mismatch_result = cam mismatch_world
     \<and> (\<exists>a. priv (descs mismatch_result ! (streams mismatch_config ! 0)) = Some a
          \<and> length (heap mismatch_world) \<le> a \<and> deref (heap mismatch_result) (Some a) = None)"
    by auto
  with 1 2 3 4 5 7 show ?thesis by blast
qed

text \<open>
  C9. The claim does not hold on the code for a reuse mismatch at an index before the
  last. In the example the first descriptor asks for a new stream, the second is the
  mismatch and a third follows. The fill loop creates Stream 1 for the first descriptor
  and leaves its address in the descriptor's tag, stores \<^verbatim>\<open>NULL\<close> for the second and stops;
  the third element of the new array is never written. \<^verbatim>\<open>err_out\<close> hands that array with
  count 3 to \<^verbatim>\<open>destroyStreams\<close>, which reads the third element: the cleanup, and with it the
  call, has no defined result, where the claim has the committed set restored and the
  new stream freed.
\<close>

theorem configureStreams_abort_reads_unwritten:
  "mismatch abort_world (streams middle_config ! 1)
   \<and> markUnused (mStreams (cam abort_world)) 0 (nat (mNumStreams (cam abort_world)))
        (heap abort_world) = Some (heap abort_marked)
   \<and> fillStreams (streams middle_config) 0 3 abort_marked (replicate 3 Uninit)
        = Some (False, abort_filled, [Ptr (Some 1), Ptr None, Uninit])
   \<and> priv (descs abort_filled ! 0) = Some 1
   \<and> destroyStreams (Some [Ptr (Some 1), Ptr None, Uninit]) 3 (heap abort_filled) = None
   \<and> configureStreams abort_world (Some middle_config) = None"
  by code_simp

section \<open>Committed transactions\<close>

lemma candD:
  assumes "cand L0 w w' d x"
  shows "\<exists>a s. x = Ptr (Some a) \<and> deref (heap w') (Some a) = Some s
           \<and> isValidReuseStream s (mId (cam w)) (descs w ! d)
           \<and> mStream s < length (descs w)
           \<and> (signals_reuse (descs w ! d) \<longrightarrow> priv (descs w ! d) = Some a \<and> a < L0 \<and> mReuse s)
           \<and> (\<not> signals_reuse (descs w ! d)
                \<longrightarrow> length (heap w) \<le> a \<and> \<not> mReuse s \<and> mStream s = d)"
proof -
  from assms obtain a s where x: "x = Ptr (Some a)" and s: "deref (heap w') (Some a) = Some s"
    and v: "isValidReuseStream s (mId (cam w)) (descs w ! d)"
    and b: "mStream s < length (descs w)"
    and k: "if signals_reuse (descs w ! d)
            then priv (descs w ! d) = Some a \<and> a < L0 \<and> mReuse s
            else length (heap w) \<le> a \<and> \<not> mReuse s \<and> mStream s = d
                 \<and> (\<exists>a'. priv (descs w' ! d) = Some a' \<and> length (heap w) \<le> a'
                        \<and> a' < length (heap w'))"
    unfolding cand_def by blast
  have "signals_reuse (descs w ! d) \<longrightarrow> priv (descs w ! d) = Some a \<and> a < L0 \<and> mReuse s"
    using k by simp
  moreover have "\<not> signals_reuse (descs w ! d)
                \<longrightarrow> length (heap w) \<le> a \<and> \<not> mReuse s \<and> mStream s = d"
    using k by simp
  ultimately show ?thesis using x s v b by blast
qed

lemma destroy_old:
  assumes live: "\<forall>j<length xs. \<exists>a s. xs ! j = Ptr (Some a) \<and> deref h (Some a) = Some s"
    and dup: "\<forall>j j' a s. j < j' \<and> j' < length xs \<and> xs ! j = Ptr (Some a)
                \<and> xs ! j' = Ptr (Some a) \<and> deref h (Some a) = Some s \<longrightarrow> mReuse s"
  shows "\<exists>h'. destroyStreams (Some xs) (int (length xs)) h = Some h'
           \<and> destroyed xs 0 (length xs) h h'"
proof -
  have rng: "0 + length xs \<le> length xs" by simp
  have slots: "\<forall>j. 0 \<le> j \<and> j < 0 + length xs \<longrightarrow>
           xs ! j = Ptr None \<or> (\<exists>a s. xs ! j = Ptr (Some a) \<and> deref h (Some a) = Some s)"
  proof (intro allI impI)
    fix j assume "0 \<le> j \<and> j < 0 + length xs"
    then have "j < length xs" by simp
    with live show "xs ! j = Ptr None
        \<or> (\<exists>a s. xs ! j = Ptr (Some a) \<and> deref h (Some a) = Some s)" by blast
  qed
  have dup': "\<forall>j j' a s. 0 \<le> j \<and> j < j' \<and> j' < 0 + length xs \<and> xs ! j = Ptr (Some a)
           \<and> xs ! j' = Ptr (Some a) \<and> deref h (Some a) = Some s \<longrightarrow> mReuse s"
  proof (intro allI impI)
    fix j j' a s
    assume h: "0 \<le> j \<and> j < j' \<and> j' < 0 + length xs \<and> xs ! j = Ptr (Some a)
           \<and> xs ! j' = Ptr (Some a) \<and> deref h (Some a) = Some s"
    then have "j < j' \<and> j' < length xs \<and> xs ! j = Ptr (Some a)
                \<and> xs ! j' = Ptr (Some a) \<and> deref h (Some a) = Some s" by simp
    with dup show "mReuse s" by blast
  qed
  from destroyLoop_destroyed [OF rng slots dup'] obtain h' where
    "destroyLoop (Some xs) 0 (length xs) h = Some h'" "destroyed xs 0 (length xs) h h'"
    by blast
  then show ?thesis by (simp add: destroyStreams_def)
qed

lemma live_slotsD:
  assumes "live_slots h xs" and "j < length xs"
  shows "\<exists>a s. xs ! j = Ptr (Some a) \<and> deref h (Some a) = Some s"
proof -
  from assms have "stream_of h (xs ! j) \<noteq> None"
    by (simp add: live_slots_def list_all_length)
  then obtain s where s: "stream_of h (xs ! j) = Some s" by blast
  then obtain p where p: "xs ! j = Ptr p" "deref h p = Some s"
    by (cases "xs ! j") (simp_all add: stream_of_def)
  from p(2) obtain a where "p = Some a" by (cases p) (simp_all add: deref_def)
  with p show ?thesis by simp
qed

lemma distinct_filter_nth:
  assumes "distinct (filter P xs)" and "j < j'" and "j' < length xs" and "xs ! j = xs ! j'"
  shows "\<not> P (xs ! j)"
  using assms
proof (induction xs arbitrary: j j')
  case Nil
  then show ?case by simp
next
  case (Cons x xs)
  from Cons.prems(2,3) obtain i where i: "j' = Suc i" "i < length xs" by (cases j') auto
  show ?case
  proof (cases j)
    case 0
    show ?thesis
    proof
      assume "P ((x # xs) ! j)"
      with 0 have px: "P x" by simp
      with Cons.prems(1) have "x \<notin> set (filter P xs)" by simp
      moreover from Cons.prems(4) 0 i have "x = xs ! i" by simp
      with i(2) px have "x \<in> set (filter P xs)" by auto
      ultimately show False by simp
    qed
  next
    case (Suc k)
    have d: "distinct (filter P xs)" using Cons.prems(1) by (simp split: if_splits)
    have "k < i" "xs ! k = xs ! i" using Cons.prems(2,4) Suc i by simp_all
    from Cons.IH [OF d this(1) i(2) this(2)] Suc show ?thesis by simp
  qed
qed

text \<open>
  The fill loop writes the same handle into the array slot and into the tag of the
  descriptor, so with pairwise different descriptors each slot holds the tag of its
  descriptor when the loop completes.
\<close>

lemma fill_Suc_True:
  assumes "fillStreams ds i (Suc k) w arr = Some (True, w', arr')"
  shows "\<exists>a h1. i < length ds \<and> ds ! i < length (descs w)
           \<and> fillStreams ds (Suc i) k
                (w\<lparr>heap := h1,
                   descs := (descs w)[ds ! i := (descs w ! (ds ! i))\<lparr>priv := Some a\<rparr>]\<rparr>)
                (arr[i := Ptr (Some a)])
              = Some (True, w', arr')"
proof -
  from assms have i: "i < length ds" and d: "ds ! i < length (descs w)"
    by (auto simp add: Let_def split: if_splits)
  define r where "r = (if max_buffers (descs w ! (ds ! i)) > 0
                 then reuseStream (mId (cam w)) (descs w ! (ds ! i)) (heap w)
                 else Some (Some (length (heap w)),
                            heap w @ [Some (newStream (mId (cam w)) (ds ! i) (descs w ! (ds ! i)))]))"
  have eq: "fillStreams ds i (Suc k) w arr =
     (case r of
        None \<Rightarrow> None
      | Some (p, h1) \<Rightarrow>
          (case p of
             None \<Rightarrow> Some (False, w\<lparr>heap := h1\<rparr>, arr[i := Ptr p])
           | Some a \<Rightarrow>
               if int i = 2147483647 then None
               else fillStreams ds (Suc i) k
                      (w\<lparr>heap := h1,
                         descs := (descs w)[ds ! i := (descs w ! (ds ! i))\<lparr>priv := Some a\<rparr>]\<rparr>)
                      (arr[i := Ptr p])))"
    using i d by (simp add: Let_def r_def split: option.split prod.split)
  show ?thesis
  proof (cases r)
    case None
    with eq assms show ?thesis by simp
  next
    case (Some ph)
    obtain p h1 where ph: "ph = (p, h1)" by (cases ph)
    show ?thesis
    proof (cases p)
      case None
      with eq assms Some ph show ?thesis by simp
    next
      case (Some a)
      with eq assms \<open>r = Some ph\<close> ph
      have "fillStreams ds (Suc i) k
                      (w\<lparr>heap := h1,
                         descs := (descs w)[ds ! i := (descs w ! (ds ! i))\<lparr>priv := Some a\<rparr>]\<rparr>)
                      (arr[i := Ptr (Some a)]) = Some (True, w', arr')"
        by (simp split: if_splits)
      with i d show ?thesis by blast
    qed
  qed
qed

lemma fill_tags_frame:
  assumes "fillStreams ds i k w arr = Some (True, w', arr')"
  shows "length (descs w') = length (descs w) \<and> length arr' = length arr
         \<and> (\<forall>d. d \<notin> set (take k (drop i ds)) \<longrightarrow> descs w' ! d = descs w ! d)
         \<and> (\<forall>j<i. arr' ! j = arr ! j)"
  using assms
proof (induction k arbitrary: i w arr)
  case 0
  then show ?case by simp
next
  case (Suc k)
  from fill_Suc_True [OF Suc.prems] obtain a h1 where i: "i < length ds"
    and d: "ds ! i < length (descs w)"
    and run: "fillStreams ds (Suc i) k
                (w\<lparr>heap := h1,
                   descs := (descs w)[ds ! i := (descs w ! (ds ! i))\<lparr>priv := Some a\<rparr>]\<rparr>)
                (arr[i := Ptr (Some a)])
              = Some (True, w', arr')" by blast
  note ih = Suc.IH [OF run]
  have tk: "take (Suc k) (drop i ds) = ds ! i # take k (drop (Suc i) ds)"
    using i by (simp add: Cons_nth_drop_Suc [symmetric])
  have "\<forall>d. d \<notin> set (take (Suc k) (drop i ds)) \<longrightarrow> descs w' ! d = descs w ! d"
  proof (intro allI impI)
    fix d' assume "d' \<notin> set (take (Suc k) (drop i ds))"
    then have n: "d' \<noteq> ds ! i" "d' \<notin> set (take k (drop (Suc i) ds))" by (simp_all add: tk)
    with ih have "descs w' ! d' = ((descs w)[ds ! i := (descs w ! (ds ! i))\<lparr>priv := Some a\<rparr>]) ! d'"
      by simp
    with n(1) show "descs w' ! d' = descs w ! d'" by simp
  qed
  moreover have "\<forall>j<i. arr' ! j = arr ! j"
  proof (intro allI impI)
    fix j assume j: "j < i"
    then have "j < Suc i" by simp
    with ih have "arr' ! j = (arr[i := Ptr (Some a)]) ! j" by blast
    with j show "arr' ! j = arr ! j" by simp
  qed
  ultimately show ?case using ih by simp
qed

lemma fill_tags:
  assumes "fillStreams ds i k w arr = Some (True, w', arr')"
    and "distinct ds" and "i + k \<le> length ds" and "length arr = length ds"
  shows "\<forall>j. i \<le> j \<and> j < i + k \<longrightarrow> arr' ! j = Ptr (priv (descs w' ! (ds ! j)))"
  using assms(1,3,4)
proof (induction k arbitrary: i w arr)
  case 0
  then show ?case by auto
next
  case (Suc k)
  from fill_Suc_True [OF Suc.prems(1)] obtain a h1 where i: "i < length ds"
    and d: "ds ! i < length (descs w)"
    and run: "fillStreams ds (Suc i) k
                (w\<lparr>heap := h1,
                   descs := (descs w)[ds ! i := (descs w ! (ds ! i))\<lparr>priv := Some a\<rparr>]\<rparr>)
                (arr[i := Ptr (Some a)])
              = Some (True, w', arr')" by blast
  have rest: "Suc i + k \<le> length ds" using Suc.prems(2) by simp
  have la: "length (arr[i := Ptr (Some a)]) = length ds" using Suc.prems(3) by simp
  note ih = Suc.IH [OF run rest la]
  note fr = fill_tags_frame [OF run]
  have "ds ! i \<notin> set (take k (drop (Suc i) ds))"
  proof
    assume "ds ! i \<in> set (take k (drop (Suc i) ds))"
    then have "ds ! i \<in> set (drop (Suc i) ds)" by (rule in_set_takeD)
    moreover have "ds = take i ds @ ds ! i # drop (Suc i) ds"
      using i by (rule id_take_nth_drop)
    ultimately show False
      using assms(2) by (metis distinct.simps(2) distinct_append)
  qed
  with fr have "descs w' ! (ds ! i)
      = ((descs w)[ds ! i := (descs w ! (ds ! i))\<lparr>priv := Some a\<rparr>]) ! (ds ! i)" by simp
  with d have tag: "priv (descs w' ! (ds ! i)) = Some a" by simp
  from fr have "arr' ! i = (arr[i := Ptr (Some a)]) ! i" by simp
  with i Suc.prems(3) have ai: "arr' ! i = Ptr (Some a)" by simp
  show ?case
  proof (intro allI impI)
    fix j assume j: "i \<le> j \<and> j < i + Suc k"
    show "arr' ! j = Ptr (priv (descs w' ! (ds ! j)))"
    proof (cases "j = i")
      case True
      with ai tag show ?thesis by simp
    next
      case False
      with j have "Suc i \<le> j \<and> j < Suc i + k" by simp
      with ih show ?thesis by blast
    qed
  qed
qed

lemma configure_commit:
  assumes c: "call_ok w sc"
    and ok: "\<forall>j<length (streams sc). desc_ok w (streams sc ! j)"
    and v: "desc_inputs w (streams sc) \<le> 1" "1 \<le> desc_outputs w (streams sc)"
    and nd: "distinct (superseded w (streams sc))"
  shows "\<exists>w' arr. configureStreams w (Some sc) = Some (0, w')
           \<and> committed_to w (streams sc) w' arr
           \<and> (distinct (streams sc)
                \<longrightarrow> (\<forall>j<length (streams sc).
                       arr ! j = Ptr (priv (descs w' ! (streams sc ! j)))))"
proof -
  define ds where "ds = streams sc"
  define n where "n = length ds"
  note cd = call_okD [OF c]
  have un: "unat (num_streams sc) = n" and sn: "sint (num_streams sc) = int n"
    using cd by (simp_all add: n_def ds_def)
  have ne: "n \<noteq> 0" using v(2) by (auto simp add: n_def ds_def desc_outputs_def)
  have n0: "num_streams sc \<noteq> 0"
  proof
    assume "num_streams sc = 0"
    then have "unat (num_streams sc) = 0" by simp
    with un ne show False by simp
  qed
  from fill_run [OF c order_refl ok] obtain h0 w1 arr1 where
    mu: "markUnused (mStreams (cam w)) 0 (nat (mNumStreams (cam w))) (heap w) = Some h0"
    and f: "flag_eq (heap w) h0" and l0: "length h0 = length (heap w)"
    and sp: "\<And>k'. fillStreams ds 0 (n + k') (w\<lparr>heap := h0\<rparr>) (replicate n Uninit)
                     = fillStreams ds n k' w1 arr1"
    and fl: "filled (length (heap w)) ds 0 n (w\<lparr>heap := h0\<rparr>) (replicate n Uninit) w1 arr1"
    unfolding ds_def [symmetric] n_def [symmetric] by blast
  have fi: "fillStreams ds 0 n (w\<lparr>heap := h0\<rparr>) (replicate n Uninit) = Some (True, w1, arr1)"
    using sp [of 0] by simp
  have "desc_inputs (w\<lparr>heap := h0\<rparr>) ds = desc_inputs w ds"
    "desc_outputs (w\<lparr>heap := h0\<rparr>) ds = desc_outputs w ds"
    by (simp_all add: desc_inputs_def desc_outputs_def)
  moreover have "isValidStreamSet (Some arr1) (int n) w1
           = Some (n \<noteq> 0 \<and> desc_inputs (w\<lparr>heap := h0\<rparr>) ds \<le> 1
                   \<and> 1 \<le> desc_outputs (w\<lparr>heap := h0\<rparr>) ds, w1)"
    by (rule filled_valid [OF fl]) (simp_all add: n_def)
  ultimately have va: "isValidStreamSet (Some arr1) (int n) w1 = Some (True, w1)"
    using v ne by (simp add: ds_def)
  note fr = filledD(1) [OF fl] and la1 = filledD(2) [OF fl] and cands = filledD(4) [OF fl]
    and news = filledD(5) [OF fl] and incr = filledD(6) [OF fl]
  have l1: "length arr1 = n" using la1 by simp
  from fr have cam1: "cam w1 = cam w" and hl1: "length (heap w) \<le> length (heap w1)"
    and dl1: "length (descs w1) = length (descs w)"
    using l0 unfolding fill_frame_def by simp_all
  have dfr: "descs w1 ! d = descs w ! d
            \<or> (\<not> signals_reuse (descs w ! d)
                \<and> (\<exists>a. descs w1 ! d = (descs w ! d)\<lparr>priv := Some a\<rparr>))"
    if "d < length (descs w)" for d
    using fr that unfolding fill_frame_def by auto

  text \<open>The candidates after the fill loop.\<close>
  have c1: "\<exists>a s. arr1 ! j = Ptr (Some a) \<and> deref (heap w1) (Some a) = Some s
           \<and> isValidReuseStream s (mId (cam w)) (descs w ! (ds ! j))
           \<and> mStream s < length (descs w)
           \<and> (signals_reuse (descs w ! (ds ! j))
                \<longrightarrow> priv (descs w ! (ds ! j)) = Some a \<and> a < length (heap w) \<and> mReuse s)
           \<and> (\<not> signals_reuse (descs w ! (ds ! j))
                \<longrightarrow> length (heap w) \<le> a \<and> \<not> mReuse s \<and> mStream s = ds ! j)"
    if "j < n" for j
    using candD [OF cands [of j]] that l0 by simp

  text \<open>The configurator.\<close>
  have pre: "\<forall>j. 0 \<le> j \<and> j < 0 + n \<longrightarrow>
           (\<exists>a s. arr1 ! j = Ptr (Some a) \<and> deref (heap w1) (Some a) = Some s
              \<and> mStream s < length (descs w1))"
  proof (intro allI impI)
    fix j assume "0 \<le> j \<and> j < 0 + n"
    then have "j < n" by simp
    from c1 [OF this] dl1 show "\<exists>a s. arr1 ! j = Ptr (Some a)
        \<and> deref (heap w1) (Some a) = Some s \<and> mStream s < length (descs w1)" by auto
  qed
  have rng: "0 + n \<le> length arr1" using l1 by simp
  from setupLoop_ok [OF rng pre] obtain w3 where
    su: "setupLoop (Some arr1) 0 n w1 = Some w3" and sf: "setup_frame w1 w3"
    and sp3: "\<forall>j. 0 \<le> j \<and> j < 0 + n \<longrightarrow>
              (\<exists>a s. arr1 ! j = Ptr (Some a) \<and> deref (heap w1) (Some a) = Some s
                 \<and> heap w3 ! a = Some (configured s)
                 \<and> max_buffers (descs w3 ! mStream s) = 1)"
    by blast
  from sf have cam3: "cam w3 = cam w" and hl3: "length (heap w3) = length (heap w1)"
    and dl3: "length (descs w3) = length (descs w)"
    using cam1 dl1 unfolding setup_frame_def by simp_all
  have sfd: "\<exists>u m. descs w3 ! d = (descs w1 ! d)\<lparr>usage := u, max_buffers := m\<rparr>
            \<and> (m = max_buffers (descs w1 ! d) \<or> m = 1)"
    if "d < length (descs w)" for d
    using sf that dl1 unfolding setup_frame_def by auto
  have c3: "\<exists>a s. arr1 ! j = Ptr (Some a) \<and> deref (heap w3) (Some a) = Some s
           \<and> isValidReuseStream s (mId (cam w)) (descs w ! (ds ! j))
           \<and> mStream s < length (descs w)
           \<and> mUsage s = usage_for (mType s) \<and> mMaxBuffers s = 1
           \<and> max_buffers (descs w3 ! mStream s) = 1
           \<and> (signals_reuse (descs w ! (ds ! j))
                \<longrightarrow> priv (descs w ! (ds ! j)) = Some a \<and> a < length (heap w) \<and> mReuse s)
           \<and> (\<not> signals_reuse (descs w ! (ds ! j))
                \<longrightarrow> length (heap w) \<le> a \<and> \<not> mReuse s \<and> mStream s = ds ! j)"
    if j: "j < n" for j
  proof -
    from c1 [OF j] obtain a s where a: "arr1 ! j = Ptr (Some a)"
      and s: "deref (heap w1) (Some a) = Some s"
      and v1: "isValidReuseStream s (mId (cam w)) (descs w ! (ds ! j))"
      and b1: "mStream s < length (descs w)"
      and r1: "signals_reuse (descs w ! (ds ! j))
                \<longrightarrow> priv (descs w ! (ds ! j)) = Some a \<and> a < length (heap w) \<and> mReuse s"
      and n1: "\<not> signals_reuse (descs w ! (ds ! j))
                \<longrightarrow> length (heap w) \<le> a \<and> \<not> mReuse s \<and> mStream s = ds ! j"
      by blast
    from j have "0 \<le> j \<and> j < 0 + n" by simp
    with sp3 obtain a' s' where "arr1 ! j = Ptr (Some a')"
      "deref (heap w1) (Some a') = Some s'" "heap w3 ! a' = Some (configured s')"
      "max_buffers (descs w3 ! mStream s') = 1" by blast
    with a s have h3: "heap w3 ! a = Some (configured s)"
      and m3: "max_buffers (descs w3 ! mStream s) = 1" by simp_all
    from derefD [OF s] hl3 have "a < length (heap w3)" by simp
    with h3 have d3: "deref (heap w3) (Some a) = Some (configured s)" by (simp add: deref_def)
    have "isValidReuseStream (configured s) (mId (cam w)) (descs w ! (ds ! j))"
      using v1 by (simp add: configured_def isValidReuseStream_def)
    moreover have "mStream (configured s) = mStream s" "mReuse (configured s) = mReuse s"
      "mUsage (configured s) = usage_for (mType (configured s))"
      "mMaxBuffers (configured s) = 1"
      by (simp_all add: configured_def)
    ultimately show ?thesis
      using a d3 b1 r1 n1 m3 by (intro exI [of _ a] exI [of _ "configured s"]) simp
  qed

  text \<open>The old committed streams are live in the configured state.\<close>
  have old_live: "\<exists>s3. deref (heap w3) (Some a) = Some s3"
    if "deref (heap w) (Some a) = Some s" for a s
  proof -
    from flag_eqD [OF f that] obtain s0 where "deref h0 (Some a) = Some s0" by blast
    then have "deref (heap (w\<lparr>heap := h0\<rparr>)) (Some a) = Some s0" by simp
    from fill_frame_deref [OF fr this] obtain s1 where "deref (heap w1) (Some a) = Some s1"
      by blast
    from setup_frame_deref [OF sf this] show ?thesis by blast
  qed

  text \<open>Destroying the old array.\<close>
  have "\<exists>h4. destroyStreams (mStreams (cam w3)) (mNumStreams (cam w3)) (heap w3) = Some h4
          \<and> length h4 = length (heap w3)
          \<and> (\<forall>j<n. \<forall>a. arr1 ! j = Ptr (Some a) \<longrightarrow> h4 ! a = heap w3 ! a)"
  proof (cases "mStreams (cam w)")
    case None
    then show ?thesis by (simp add: destroyStreams_def cam3)
  next
    case (Some xs)
    with cd(1) have nx: "mNumStreams (cam w) = int (length xs)"
      and lx: "live_slots (heap w) xs"
      by (simp_all add: committed_ok_def committed_def)
    have cx: "committed w = xs" using Some by (simp add: committed_def)
    have live3: "\<exists>a s. xs ! j = Ptr (Some a) \<and> deref (heap w3) (Some a) = Some s"
      if "j < length xs" for j
    proof -
      from live_slotsD [OF lx that] obtain a s where "xs ! j = Ptr (Some a)"
        "deref (heap w) (Some a) = Some s" by blast
      with old_live [of a s] show ?thesis by blast
    qed
    have dup3: "mReuse s"
      if jj: "j < j'" "j' < length xs" and x: "xs ! j = Ptr (Some a)" "xs ! j' = Ptr (Some a)"
        and s: "deref (heap w3) (Some a) = Some s" for j j' a s
    proof -
      have "distinct (filter (\<lambda>x. x \<notin> set (reused_slots w ds)) xs)"
        using nd cx by (simp add: superseded_def ds_def)
      from distinct_filter_nth [OF this jj] x
      have "Ptr (Some a) \<in> set (reused_slots w ds)" by simp
      then obtain d where d: "d \<in> set ds" "signals_reuse (descs w ! d)"
        "priv (descs w ! d) = Some a"
        by (auto simp add: reused_slots_def)
      then obtain m where m: "m < n" "ds ! m = d" by (auto simp add: in_set_conv_nth n_def)
      from c3 [OF m(1)] d m(2) obtain s' where "deref (heap w3) (Some a) = Some s'" "mReuse s'"
        by auto
      with s show ?thesis by simp
    qed
    have live3': "\<forall>j<length xs. \<exists>a s. xs ! j = Ptr (Some a)
                    \<and> deref (heap w3) (Some a) = Some s"
      using live3 by blast
    have dup3': "\<forall>j j' a s. j < j' \<and> j' < length xs \<and> xs ! j = Ptr (Some a)
                \<and> xs ! j' = Ptr (Some a) \<and> deref (heap w3) (Some a) = Some s \<longrightarrow> mReuse s"
      using dup3 by blast
    from destroy_old [OF live3' dup3'] obtain h4 where
      de: "destroyStreams (Some xs) (int (length xs)) (heap w3) = Some h4"
      and dd: "destroyed xs 0 (length xs) (heap w3) h4" by blast
    note l4 = destroyedD(1) [OF dd] and only = destroyedD(2) [OF dd]
    have keep: "h4 ! a = heap w3 ! a" if j: "j < n" and a: "arr1 ! j = Ptr (Some a)" for j a
    proof -
      from c3 [OF j] a obtain s where s3: "deref (heap w3) (Some a) = Some s"
        and r: "signals_reuse (descs w ! (ds ! j)) \<longrightarrow> mReuse s"
        and nw: "\<not> signals_reuse (descs w ! (ds ! j)) \<longrightarrow> length (heap w) \<le> a"
        by auto
      from derefD [OF s3] have al: "a < length (heap w3)" and hs: "heap w3 ! a = Some s"
        by simp_all
      from only [OF al] show ?thesis
      proof
        assume "h4 ! a = None \<and> (\<exists>j s. 0 \<le> j \<and> j < 0 + length xs \<and> xs ! j = Ptr (Some a)
                                     \<and> heap w3 ! a = Some s \<and> \<not> mReuse s)"
        then obtain j' where j': "j' < length xs" "xs ! j' = Ptr (Some a)" and nr: "\<not> mReuse s"
          using hs by auto
        from live_slotsD [OF lx j'(1)] j'(2) have "a < length (heap w)"
          by (auto dest: derefD)
        with nw r nr show ?thesis by auto
      qed simp
    qed
    from de l4 keep show ?thesis by (simp add: Some nx cam3)
  qed
  then obtain h4 where
    de: "destroyStreams (mStreams (cam w3)) (mNumStreams (cam w3)) (heap w3) = Some h4"
    and l4: "length h4 = length (heap w3)"
    and keep: "\<And>j a. j < n \<Longrightarrow> arr1 ! j = Ptr (Some a) \<Longrightarrow> h4 ! a = heap w3 ! a"
    by blast

  define w' where "w' = w3\<lparr>heap := h4,
      cam := (cam w3)\<lparr>mStreams := Some arr1, mNumStreams := sint (num_streams sc)\<rparr>\<rparr>"
  have run: "configureStreams w (Some sc) = Some (0, w')"
    unfolding configureStreams_def w'_def
    using n0 mu fi va su de
    by (simp add: Let_def un sn ds_def [symmetric] setupStreams_def)
  have ct: "committed_to w ds w' arr1"
    unfolding committed_to_def
  proof (intro conjI allI impI)
    show "cam w' = (cam w)\<lparr>mStreams := Some arr1, mNumStreams := int (length ds)\<rparr>"
      by (simp add: w'_def cam3 sn n_def)
    show "length arr1 = length ds" using l1 by (simp add: n_def)
    show "length (descs w') = length (descs w)" using dl3 by (simp add: w'_def)
    show "length (heap w) \<le> length (heap w')" using hl1 hl3 l4 by (simp add: w'_def)
  next
    fix j assume "j < length ds"
    then have j: "j < n" by (simp add: n_def)
    from c3 [OF j] obtain a s where a: "arr1 ! j = Ptr (Some a)"
      and s: "deref (heap w3) (Some a) = Some s"
      and rest: "isValidReuseStream s (mId (cam w)) (descs w ! (ds ! j))"
        "mStream s < length (descs w)" "mUsage s = usage_for (mType s)" "mMaxBuffers s = 1"
        "signals_reuse (descs w ! (ds ! j))
           \<longrightarrow> priv (descs w ! (ds ! j)) = Some a \<and> a < length (heap w) \<and> mReuse s"
        "\<not> signals_reuse (descs w ! (ds ! j))
           \<longrightarrow> length (heap w) \<le> a \<and> \<not> mReuse s \<and> mStream s = ds ! j"
      by blast
    have "deref (heap w') (Some a) = Some s"
      using keep [OF j a] derefD [OF s] l4 by (simp add: w'_def deref_def)
    with a rest show "\<exists>a s. arr1 ! j = Ptr (Some a) \<and> deref (heap w') (Some a) = Some s
             \<and> isValidReuseStream s (mId (cam w)) (descs w ! (ds ! j))
             \<and> mStream s < length (descs w)
             \<and> mUsage s = usage_for (mType s) \<and> mMaxBuffers s = 1
             \<and> (if signals_reuse (descs w ! (ds ! j))
                 then priv (descs w ! (ds ! j)) = Some a \<and> a < length (heap w)
                 else length (heap w) \<le> a \<and> mStream s = ds ! j \<and> \<not> mReuse s)"
      by (intro exI [of _ a] exI [of _ s]) simp
  next
    fix j j' a a'
    assume "j < j' \<and> j' < length ds
             \<and> \<not> signals_reuse (descs w ! (ds ! j)) \<and> \<not> signals_reuse (descs w ! (ds ! j'))
             \<and> arr1 ! j = Ptr (Some a) \<and> arr1 ! j' = Ptr (Some a')"
    then show "a < a'" using incr [of j j' a a'] by (simp add: n_def)
  next
    fix d assume d: "d < length (descs w)"
    from sfd [OF d] obtain u m where 3: "descs w3 ! d = (descs w1 ! d)\<lparr>usage := u, max_buffers := m\<rparr>"
      by blast
    from dfr [OF d] have "\<exists>p. descs w1 ! d = (descs w ! d)\<lparr>priv := p\<rparr>"
    proof
      assume "descs w1 ! d = descs w ! d"
      then have "descs w1 ! d = (descs w ! d)\<lparr>priv := priv (descs w ! d)\<rparr>" by simp
      then show ?thesis by blast
    qed blast
    then obtain p where "descs w1 ! d = (descs w ! d)\<lparr>priv := p\<rparr>" by blast
    with 3 have "descs w' ! d = (descs w ! d)\<lparr>usage := u, max_buffers := m, priv := p\<rparr>"
      by (simp add: w'_def)
    then show "\<exists>u m p. descs w' ! d = (descs w ! d)\<lparr>usage := u, max_buffers := m, priv := p\<rparr>"
      by blast
  next
    fix j assume "j < length ds"
    then have j: "j < n" by (simp add: n_def)
    have dj: "ds ! j < length (descs w)" using ok j by (simp add: desc_ok_def ds_def n_def)
    show "signals_reuse (descs w' ! (ds ! j))"
    proof (cases "signals_reuse (descs w ! (ds ! j))")
      case True
      with dfr [OF dj] have "descs w1 ! (ds ! j) = descs w ! (ds ! j)" by auto
      with sfd [OF dj] True show ?thesis
        by (auto simp add: w'_def signals_reuse_def)
    next
      case False
      with c3 [OF j] have "max_buffers (descs w3 ! (ds ! j)) = 1" by auto
      then show ?thesis by (simp add: w'_def signals_reuse_def)
    qed
  next
    fix b assume "length (heap w) \<le> b \<and> b < length (heap w')"
    then have "length (heap (w\<lparr>heap := h0\<rparr>)) \<le> b \<and> b < length (heap w1)"
      using l0 l4 hl3 by (simp add: w'_def)
    from news [OF this] show "\<exists>j<length ds. arr1 ! j = Ptr (Some b)"
      by (auto simp add: n_def)
  qed
  have tg: "distinct ds \<longrightarrow> (\<forall>j<length ds. arr1 ! j = Ptr (priv (descs w' ! (ds ! j))))"
  proof (intro impI allI)
    assume dist: "distinct ds"
    fix j assume "j < length ds"
    then have j: "j < n" by (simp add: n_def)
    have "0 + n \<le> length ds" "length (replicate n Uninit) = length ds"
      by (simp_all add: n_def)
    from fill_tags [OF fi dist this] j have "arr1 ! j = Ptr (priv (descs w1 ! (ds ! j)))"
      by simp
    moreover have "ds ! j < length (descs w)"
      using ok j by (simp add: desc_ok_def ds_def n_def)
    from sfd [OF this] have "priv (descs w3 ! (ds ! j)) = priv (descs w1 ! (ds ! j))"
      by auto
    ultimately show "arr1 ! j = Ptr (priv (descs w' ! (ds ! j)))" by (simp add: w'_def)
  qed
  from run ct tg show ?thesis unfolding ds_def by blast
qed

lemma committed_toD:
  assumes "committed_to w ds w' arr"
  shows "cam w' = (cam w)\<lparr>mStreams := Some arr, mNumStreams := int (length ds)\<rparr>"
    and "length arr = length ds"
    and "\<And>j. j < length ds \<Longrightarrow> \<exists>a s. arr ! j = Ptr (Some a) \<and> deref (heap w') (Some a) = Some s
             \<and> isValidReuseStream s (mId (cam w)) (descs w ! (ds ! j))
             \<and> mStream s < length (descs w)
             \<and> mUsage s = usage_for (mType s) \<and> mMaxBuffers s = 1
             \<and> (if signals_reuse (descs w ! (ds ! j))
                 then priv (descs w ! (ds ! j)) = Some a \<and> a < length (heap w)
                 else length (heap w) \<le> a \<and> mStream s = ds ! j \<and> \<not> mReuse s)"
    and "\<And>j j' a a'. j < j' \<and> j' < length ds
             \<and> \<not> signals_reuse (descs w ! (ds ! j)) \<and> \<not> signals_reuse (descs w ! (ds ! j'))
             \<and> arr ! j = Ptr (Some a) \<and> arr ! j' = Ptr (Some a') \<Longrightarrow> a < a'"
    and "length (descs w') = length (descs w)"
    and "\<And>d. d < length (descs w) \<Longrightarrow> \<exists>u m p. descs w' ! d
                                          = (descs w ! d)\<lparr>usage := u, max_buffers := m, priv := p\<rparr>"
    and "\<And>j. j < length ds \<Longrightarrow> signals_reuse (descs w' ! (ds ! j))"
    and "length (heap w) \<le> length (heap w')"
    and "\<And>b. length (heap w) \<le> b \<and> b < length (heap w')
             \<Longrightarrow> \<exists>j<length ds. arr ! j = Ptr (Some b)"
  using assms unfolding committed_to_def by blast+

lemma committed_to_ok:
  assumes "committed_to w ds w' arr"
  shows "committed_ok w'"
proof -
  note d = committed_toD [OF assms]
  have "committed w' = arr" using d(1) by (simp add: committed_def)
  moreover have "live_slots (heap w') arr"
    unfolding live_slots_def list_all_length
  proof (intro allI impI)
    fix j assume "j < length arr"
    with d(2) have "j < length ds" by simp
    from d(3) [OF this] show "stream_of (heap w') (arr ! j) \<noteq> None"
      by (auto simp add: stream_of_def)
  qed
  ultimately show ?thesis using d(1,2) by (simp add: committed_ok_def)
qed

text \<open>
  The committed transaction. On a well-formed device, for every configuration whose
  descriptors are acceptable, name at least one output-capable and at most one
  input-capable type and carry over every committed stream that the committed array
  lists twice, \<^verbatim>\<open>configureStreams\<close> returns 0. Afterwards \<^verbatim>\<open>mNumStreams\<close> is the count and
  \<^verbatim>\<open>mStreams\<close> is an array of that length of live streams: at an index whose descriptor
  signalled reuse the very pointer the descriptor carried, at any other index a Stream
  that did not exist before the call, bound to this device and to the descriptor and of
  the descriptor's type; the new streams at different indices are different objects.
\<close>

theorem configureStreams_commits:
  assumes "call_ok w sc" and "list_all (desc_ok w) (streams sc)"
    and "1 \<le> desc_outputs w (streams sc)" and "desc_inputs w (streams sc) \<le> 1"
    and "distinct (superseded w (streams sc))"
  shows "\<exists>w' arr. configureStreams w (Some sc) = Some (0, w')
           \<and> mStreams (cam w') = Some arr \<and> mNumStreams (cam w') = int (length (streams sc))
           \<and> length arr = length (streams sc) \<and> committed_ok w'
           \<and> (\<forall>j<length (streams sc).
                 if signals_reuse (descs w ! (streams sc ! j))
                 then arr ! j = Ptr (priv (descs w ! (streams sc ! j)))
                 else (\<exists>a s. arr ! j = Ptr (Some a) \<and> length (heap w) \<le> a
                         \<and> deref (heap w') (Some a) = Some s \<and> mDeviceId s = mId (cam w)
                         \<and> mStream s = streams sc ! j
                         \<and> mType s = stream_type (descs w ! (streams sc ! j))))
           \<and> (\<forall>i j. i < j \<and> j < length (streams sc)
                 \<and> \<not> signals_reuse (descs w ! (streams sc ! i))
                 \<and> \<not> signals_reuse (descs w ! (streams sc ! j)) \<longrightarrow> arr ! i \<noteq> arr ! j)"
proof -
  have ok: "\<forall>j<length (streams sc). desc_ok w (streams sc ! j)"
    using assms(2) by (simp add: list_all_length)
  from configure_commit [OF assms(1) ok assms(4,3,5)] obtain w' arr where
    run: "configureStreams w (Some sc) = Some (0, w')"
    and ct: "committed_to w (streams sc) w' arr" by blast
  note d = committed_toD [OF ct]
  have slot: "if signals_reuse (descs w ! (streams sc ! j))
                 then arr ! j = Ptr (priv (descs w ! (streams sc ! j)))
                 else (\<exists>a s. arr ! j = Ptr (Some a) \<and> length (heap w) \<le> a
                         \<and> deref (heap w') (Some a) = Some s \<and> mDeviceId s = mId (cam w)
                         \<and> mStream s = streams sc ! j
                         \<and> mType s = stream_type (descs w ! (streams sc ! j)))"
    if "j < length (streams sc)" for j
  proof -
    from d(3) [OF that] obtain a s where a: "arr ! j = Ptr (Some a)"
      and s: "deref (heap w') (Some a) = Some s"
      and v: "isValidReuseStream s (mId (cam w)) (descs w ! (streams sc ! j))"
      and k: "if signals_reuse (descs w ! (streams sc ! j))
                 then priv (descs w ! (streams sc ! j)) = Some a \<and> a < length (heap w)
                 else length (heap w) \<le> a \<and> mStream s = streams sc ! j \<and> \<not> mReuse s"
      by blast
    from v have "mDeviceId s = mId (cam w)" "mType s = stream_type (descs w ! (streams sc ! j))"
      by (simp_all add: isValidReuseStream_def)
    with a s k show ?thesis by (auto split: if_splits)
  qed
  have diff: "arr ! i \<noteq> arr ! j"
    if h: "i < j \<and> j < length (streams sc)
                 \<and> \<not> signals_reuse (descs w ! (streams sc ! i))
                 \<and> \<not> signals_reuse (descs w ! (streams sc ! j))" for i j
  proof -
    from h have "i < length (streams sc)" "j < length (streams sc)" by simp_all
    from d(3) [OF this(1)] d(3) [OF this(2)] obtain a a' where
      a: "arr ! i = Ptr (Some a)" "arr ! j = Ptr (Some a')" by blast
    with d(4) [of i j a a'] h have "a < a'" by simp
    with a show ?thesis by simp
  qed
  have slots: "\<forall>j<length (streams sc).
                 if signals_reuse (descs w ! (streams sc ! j))
                 then arr ! j = Ptr (priv (descs w ! (streams sc ! j)))
                 else (\<exists>a s. arr ! j = Ptr (Some a) \<and> length (heap w) \<le> a
                         \<and> deref (heap w') (Some a) = Some s \<and> mDeviceId s = mId (cam w)
                         \<and> mStream s = streams sc ! j
                         \<and> mType s = stream_type (descs w ! (streams sc ! j)))"
    using slot by blast
  have diffs: "\<forall>i j. i < j \<and> j < length (streams sc)
                 \<and> \<not> signals_reuse (descs w ! (streams sc ! i))
                 \<and> \<not> signals_reuse (descs w ! (streams sc ! j)) \<longrightarrow> arr ! i \<noteq> arr ! j"
    using diff by blast
  have "mStreams (cam w') = Some arr" "mNumStreams (cam w') = int (length (streams sc))"
    using d(1) by simp_all
  with run d(2) committed_to_ok [OF ct] slots diffs show ?thesis
    by blast
qed

theorem configureStreams_commits_witness:
  "call_ok fresh_device both_config \<and> list_all (desc_ok fresh_device) (streams both_config)
   \<and> 1 \<le> desc_outputs fresh_device (streams both_config)
   \<and> desc_inputs fresh_device (streams both_config) \<le> 1
   \<and> distinct (superseded fresh_device (streams both_config))
   \<and> (\<exists>w' arr. configureStreams fresh_device (Some both_config) = Some (0, w')
          \<and> mStreams (cam w') = Some arr \<and> mNumStreams (cam w') = 2 \<and> length arr = 2
          \<and> committed_ok w' \<and> arr ! 0 \<noteq> arr ! 1)"
proof -
  have 1: "call_ok fresh_device both_config" by code_simp
  have 2: "list_all (desc_ok fresh_device) (streams both_config)" by code_simp
  have 3: "1 \<le> desc_outputs fresh_device (streams both_config)" by code_simp
  have 4: "desc_inputs fresh_device (streams both_config) \<le> 1" by code_simp
  have 5: "distinct (superseded fresh_device (streams both_config))" by code_simp
  have 6: "length (streams both_config) = 2"
    "\<not> signals_reuse (descs fresh_device ! (streams both_config ! 0))"
    "\<not> signals_reuse (descs fresh_device ! (streams both_config ! 1))"
    by code_simp+
  from configureStreams_commits [OF 1 2 3 4 5] obtain w' arr where
    r: "configureStreams fresh_device (Some both_config) = Some (0, w')"
      "mStreams (cam w') = Some arr" "mNumStreams (cam w') = int (length (streams both_config))"
      "length arr = length (streams both_config)" "committed_ok w'"
    and d: "\<forall>i j. i < j \<and> j < length (streams both_config)
                 \<and> \<not> signals_reuse (descs fresh_device ! (streams both_config ! i))
                 \<and> \<not> signals_reuse (descs fresh_device ! (streams both_config ! j))
               \<longrightarrow> arr ! i \<noteq> arr ! j"
    by blast
  from d 6 have "arr ! 0 \<noteq> arr ! 1" by simp
  with r 6(1) have "configureStreams fresh_device (Some both_config) = Some (0, w')
          \<and> mStreams (cam w') = Some arr \<and> mNumStreams (cam w') = 2 \<and> length arr = 2
          \<and> committed_ok w' \<and> arr ! 0 \<noteq> arr ! 1" by simp
  with 1 2 3 4 5 show ?thesis by blast
qed

text \<open>
  C1. The claim does not hold on the code when the committed array lists a stream twice
  and the new configuration does not carry that stream over. Two calls that return 0, the
  first with the first descriptor and the second with the first descriptor listed twice,
  commit the array of Stream 0 twice. A third call with the second descriptor alone, a
  valid list of one new output stream, creates and configures its candidate and then
  destroys the old array: \<^verbatim>\<open>destroyStreams\<close> deletes Stream 0 at the first element and reads
  and deletes it again at the second. The call has no defined result, where the claim has
  it return 0 with the candidate set committed.
\<close>

theorem configureStreams_deletes_twice:
  "configureStreams two_outputs (Some first_only) = Some (0, committed_once)
   \<and> configureStreams committed_once (Some first_twice) = Some (0, committed_same)
   \<and> mStreams (cam committed_same) = Some [Ptr (Some 0), Ptr (Some 0)]
   \<and> call_ok committed_same second_only
   \<and> streams second_only ! 0 < length (descs committed_same)
   \<and> \<not> signals_reuse (descs committed_same ! (streams second_only ! 0))
   \<and> desc_outputs committed_same (streams second_only) = 1
   \<and> desc_inputs committed_same (streams second_only) = 0
   \<and> configureStreams committed_same (Some second_only) = None"
  by code_simp

lemma isValidReuseStream_assigned [simp]:
  "isValidReuseStream s i (c\<lparr>usage := u\<rparr>) = isValidReuseStream s i c"
  "isValidReuseStream s i (c\<lparr>max_buffers := m\<rparr>) = isValidReuseStream s i c"
  by (simp_all add: isValidReuseStream_def)




end
